theory Spec2Isabelle
  imports Main "HOL-Library.Word"
begin

unbundle bit_operations_syntax

section \<open>The cache simulator \<open>csim.c\<close>\<close>

text \<open>
  A shallow embedding of \<open>csim.c\<close>. The C globals become one record that every function
  takes and returns. C \<open>int\<close> is a 32-bit word read with \<open>sint\<close>, \<open>unsigned int\<close> a 32-bit
  word, \<open>unsigned long\<close> and \<open>long\<close> 64-bit words (\<open>long\<close> compared with \<open><s\<close>), \<open>char\<close>
  an 8-bit word. The flag \<open>verbose\<close> and the output it switches on (\<open>printf\<close> of HIT,
  MISS, EVICTION) change no other variable of the program and are left out, and so are
  \<open>free_cache\<close> and \<open>fclose\<close>, which run after the last access.
\<close>

type_synonym c_int = "32 word"
type_synonym c_uint = "32 word"
type_synonym c_ulong = "64 word"
type_synonym c_long = "64 word"
type_synonym c_char = "8 word"

subsection \<open>The macros \<open>INT_LOG2\<close> and \<open>NOT_POWER2\<close>\<close>

text \<open>
  \<open>__builtin_clz\<close> and \<open>__builtin_ctz\<close> count the zero bits above the highest and below
  the lowest set bit of a 32-bit value. C leaves both undefined at 0; here they give 32.
\<close>

definition builtin_clz :: "c_uint \<Rightarrow> nat" where
  "builtin_clz x = length (takeWhile (\<lambda>i. \<not> bit x i) (rev [0..<32]))"

definition builtin_ctz :: "c_uint \<Rightarrow> nat" where
  "builtin_ctz x = length (takeWhile (\<lambda>i. \<not> bit x i) [0..<32])"

definition INT_LOG2 :: "c_int \<Rightarrow> c_int" where
  "INT_LOG2 x = 31 - word_of_nat (builtin_clz x)"

definition NOT_POWER2 :: "c_int \<Rightarrow> bool" where
  "NOT_POWER2 x \<longleftrightarrow> builtin_clz x + builtin_ctz x \<noteq> 31"

subsection \<open>Global variables and cache data structures\<close>

datatype Policy = FIFO | LRU

record BlockCache =
  tagBits :: c_ulong
  countBlock :: c_long
  validBits :: c_char

type_synonym SetCache = "BlockCache list"

text \<open>
  \<open>policy\<close> is \<open>None\<close> for the value 0 that the C global has before an option sets it;
  \<open>trace_fp\<close> is \<open>True\<close> once the trace file is open (a non-null \<open>FILE *\<close>).
\<close>

record globals =
  S :: c_int
  K :: c_int
  B :: c_int
  policy :: "Policy option"
  trace_fp :: bool
  B_temp :: c_int
  S_temp :: c_int
  setMask :: c_ulong
  num_fifo :: c_uint
  num_lru :: c_uint
  cache :: "SetCache list"
  miss_count :: c_int
  hit_count :: c_int
  eviction_count :: c_int

definition initial_globals :: globals where
  "initial_globals =
     \<lparr>S = 0, K = 0, B = 0, policy = None, trace_fp = False, B_temp = 0, S_temp = 0,
      setMask = 0, num_fifo = 1, num_lru = 1, cache = [],
      miss_count = 0, hit_count = 0, eviction_count = 0\<rparr>"

definition empty_block :: BlockCache where
  "empty_block = \<lparr>tagBits = 0, countBlock = 0, validBits = 0\<rparr>"

definition allocate_cache :: "globals \<Rightarrow> globals" where
  "allocate_cache g =
     g\<lparr>cache := replicate (nat (sint (S g))) (replicate (nat (sint (K g))) empty_block),
       setMask := scast (S g - 1)\<rparr>"

subsection \<open>\<open>access_data\<close>\<close>

text \<open>The three scans over the \<open>K\<close> lines of a set, each a \<open>for\<close> loop from index 0.\<close>

definition find_tag :: "SetCache \<Rightarrow> nat \<Rightarrow> c_ulong \<Rightarrow> nat option" where
  "find_tag set_cache k num_tag =
     find (\<lambda>idx. tagBits (set_cache ! idx) = num_tag \<and> validBits (set_cache ! idx) \<noteq> 0) [0..<k]"

definition find_inv :: "SetCache \<Rightarrow> nat \<Rightarrow> nat option" where
  "find_inv set_cache k = find (\<lambda>idx. validBits (set_cache ! idx) = 0) [0..<k]"

definition lru_victim :: "SetCache \<Rightarrow> nat \<Rightarrow> nat" where
  "lru_victim set_cache k =
     snd (fold (\<lambda>idx (lowest_count, lowest_count_idx).
                  if countBlock (set_cache ! idx) <s lowest_count
                  then (countBlock (set_cache ! idx), idx)
                  else (lowest_count, lowest_count_idx))
            [0..<k] (countBlock (set_cache ! 0), 0))"

definition fifo_victim :: "SetCache \<Rightarrow> nat \<Rightarrow> nat" where
  "fifo_victim set_cache k =
     fold (\<lambda>idx recent.
             if countBlock (set_cache ! idx) <s countBlock (set_cache ! recent)
             then idx else recent)
       [0..<k] 0"

text \<open>
  The first two lines of \<open>access_data\<close>: the tag and the set number of an address, from
  the globals \<open>S_temp\<close>, \<open>B_temp\<close> and \<open>setMask\<close>.
\<close>

definition num_tag_of :: "globals \<Rightarrow> c_ulong \<Rightarrow> c_ulong" where
  "num_tag_of g addr = drop_bit (nat (sint (S_temp g + B_temp g))) addr"

definition num_set_of :: "globals \<Rightarrow> c_ulong \<Rightarrow> c_ulong" where
  "num_set_of g addr = setMask g AND drop_bit (nat (sint (B_temp g))) addr"

definition access_data :: "globals \<Rightarrow> c_ulong \<Rightarrow> globals" where
  "access_data g addr =
    (let num_tag = num_tag_of g addr;
         num_set = unat (num_set_of g addr);
         set_cache = cache g ! num_set;
         k = nat (sint (K g))
     in case policy g of
          Some LRU \<Rightarrow>
            (case find_tag set_cache k num_tag of
               Some idx \<Rightarrow>
                 g\<lparr>hit_count := hit_count g + 1,
                   num_lru := num_lru g + 1,
                   cache := (cache g)[num_set :=
                     set_cache[idx := (set_cache ! idx)\<lparr>countBlock := ucast (num_lru g + 1)\<rparr>]]\<rparr>
             | None \<Rightarrow>
                 (case find_inv set_cache k of
                    Some inv_idx \<Rightarrow>
                      g\<lparr>miss_count := miss_count g + 1,
                        num_lru := num_lru g + 1,
                        cache := (cache g)[num_set :=
                          set_cache[inv_idx := \<lparr>tagBits = num_tag,
                                             countBlock = ucast (num_lru g + 1),
                                             validBits = 1\<rparr>]]\<rparr>
                  | None \<Rightarrow>
                      (let lowest_count_idx = lru_victim set_cache k in
                       g\<lparr>miss_count := miss_count g + 1,
                         eviction_count := eviction_count g + 1,
                         num_lru := num_lru g + 1,
                         cache := (cache g)[num_set :=
                           set_cache[lowest_count_idx := (set_cache ! lowest_count_idx)
                             \<lparr>countBlock := ucast (num_lru g + 1), tagBits := num_tag\<rparr>]]\<rparr>)))
        | Some FIFO \<Rightarrow>
            (case find_tag set_cache k num_tag of
               Some idx \<Rightarrow> g\<lparr>hit_count := hit_count g + 1\<rparr>
             | None \<Rightarrow>
                 (case find_inv set_cache k of
                    Some inv_idx \<Rightarrow>
                      g\<lparr>miss_count := miss_count g + 1,
                        num_fifo := num_fifo g + 1,
                        cache := (cache g)[num_set :=
                          set_cache[inv_idx := \<lparr>tagBits = num_tag,
                                             countBlock = ucast (num_fifo g + 1),
                                             validBits = 1\<rparr>]]\<rparr>
                  | None \<Rightarrow>
                      (let recent = fifo_victim set_cache k in
                       g\<lparr>miss_count := miss_count g + 1,
                         eviction_count := eviction_count g + 1,
                         num_fifo := num_fifo g + 1,
                         cache := (cache g)[num_set :=
                           set_cache[recent := \<lparr>tagBits = num_tag,
                                                countBlock = ucast (num_fifo g + 1),
                                                validBits = 1\<rparr>]]\<rparr>)))
        | None \<Rightarrow> g)"

subsection \<open>\<open>replay_trace\<close>\<close>

text \<open>
  The two \<open>for\<close> loops of \<open>replay_trace\<close> run \<open>idx\<close> from \<open>address\<close> while
  \<open>idx < address + size\<close>, in \<open>unsigned long\<close> arithmetic, and call \<open>access_data\<close> once
  (Load, Store) or twice (Modify) at each \<open>idx\<close> that is \<open>address\<close> or a multiple of \<open>B\<close>.
  Neither the loop bounds nor \<open>B\<close> depend on what \<open>access_data\<close> does, so each loop is
  modelled by the list of addresses it passes to \<open>access_data\<close>, in the order of the
  calls; \<open>b\<close> is \<open>B\<close> converted to \<open>unsigned long\<close> and \<open>bound\<close> is \<open>address + size\<close>.
\<close>

function ls_loop :: "c_ulong \<Rightarrow> c_ulong \<Rightarrow> c_ulong \<Rightarrow> c_ulong \<Rightarrow> c_ulong list" where
  "ls_loop b address bound idx =
     (if idx < bound
      then (if idx = address \<or> idx mod b = 0 then [idx] else []) @
           ls_loop b address bound (idx + 1)
      else [])"
  by pat_completeness auto
termination
proof (relation "measure (\<lambda>(b, address, bound, idx). unat bound - unat idx)")
  show "wf (measure (\<lambda>(b, address, bound, idx). unat bound - unat idx))"
    by simp
next
  fix b address bound idx :: c_ulong
  assume "idx < bound"
  then have lt: "unat idx < unat bound"
    by (simp add: word_less_nat_alt)
  moreover have "unat bound < 2 ^ 64"
    using unsigned_less [of bound, where 'a = nat] by simp
  ultimately have "unat idx + unat (1 :: c_ulong) < 2 ^ LENGTH(64)"
    by simp
  then have "unat (idx + 1) = Suc (unat idx)"
    by (simp add: unat_add_lem [THEN iffD1])
  with lt
  show "((b, address, bound, idx + 1), (b, address, bound, idx))
             \<in> measure (\<lambda>(b, address, bound, idx). unat bound - unat idx)"
    by simp
qed

function m_loop :: "c_ulong \<Rightarrow> c_ulong \<Rightarrow> c_ulong \<Rightarrow> c_ulong \<Rightarrow> c_ulong list" where
  "m_loop b address bound idx =
     (if idx < bound
      then (if idx = address \<or> idx mod b = 0 then [idx, idx] else []) @
           m_loop b address bound (idx + 1)
      else [])"
  by pat_completeness auto
termination
proof (relation "measure (\<lambda>(b, address, bound, idx). unat bound - unat idx)")
  show "wf (measure (\<lambda>(b, address, bound, idx). unat bound - unat idx))"
    by simp
next
  fix b address bound idx :: c_ulong
  assume "idx < bound"
  then have lt: "unat idx < unat bound"
    by (simp add: word_less_nat_alt)
  moreover have "unat bound < 2 ^ 64"
    using unsigned_less [of bound, where 'a = nat] by simp
  ultimately have "unat idx + unat (1 :: c_ulong) < 2 ^ LENGTH(64)"
    by simp
  then have "unat (idx + 1) = Suc (unat idx)"
    by (simp add: unat_add_lem [THEN iffD1])
  with lt
  show "((b, address, bound, idx + 1), (b, address, bound, idx))
             \<in> measure (\<lambda>(b, address, bound, idx). unat bound - unat idx)"
    by simp
qed

declare ls_loop.simps [simp del] m_loop.simps [simp del]

text \<open>
  The addresses at which one trace record \<open>trace_cmd address,size\<close> calls \<open>access_data\<close>,
  in order, and the replay of the record.
\<close>

definition record_accesses :: "c_int \<Rightarrow> char \<Rightarrow> c_ulong \<Rightarrow> c_ulong \<Rightarrow> c_ulong list" where
  "record_accesses b trace_cmd address size' =
     (if trace_cmd = CHR ''L'' \<or> trace_cmd = CHR ''S'' then
        (if 1 < size' then ls_loop (scast b) address (address + size') address
         else [address])
      else if trace_cmd = CHR ''M'' then
        (if 1 < size' then m_loop (scast b) address (address + size') address
         else [address, address])
      else [])"

definition replay_record :: "char \<Rightarrow> c_ulong \<Rightarrow> c_ulong \<Rightarrow> globals \<Rightarrow> globals" where
  "replay_record trace_cmd address size' g =
     fold (\<lambda>idx g'. access_data g' idx) (record_accesses (B g) trace_cmd address size') g"

text \<open>
  The trace file is read by \<open>fscanf(trace_fp, " %c %lx,%ld", ...)\<close>, a library function.
  The trace is modelled by the results of the successive calls: \<open>Scanned c a n\<close> when the
  call returns 3 and stores \<open>c\<close>, \<open>a\<close>, \<open>n\<close>; \<open>ScanFail\<close> when it returns anything else
  (a line that does not match the format). The end of the list is the end of the file,
  where \<open>fscanf\<close> returns \<open>EOF\<close>. The \<open>while\<close> loop runs as long as the call returns 3.
\<close>

datatype scan = Scanned char c_ulong c_ulong | ScanFail

fun replay_trace :: "scan list \<Rightarrow> globals \<Rightarrow> globals" where
  "replay_trace [] g = g"
| "replay_trace (ScanFail # rest) g = g"
| "replay_trace (Scanned trace_cmd address size' # rest) g =
     replay_trace rest (replay_record trace_cmd address size' g)"

subsection \<open>\<open>parse_arguments\<close> and \<open>main\<close>\<close>

text \<open>
  The command line is modelled by what the successive calls of \<open>getopt\<close> return, with
  the library calls on \<open>optarg\<close> already made: \<open>OptS n\<close> is option \<open>-S\<close> with
  \<open>atoi(optarg) = n\<close>, \<open>OptP s\<close> is \<open>-p\<close> with \<open>optarg = s\<close>, \<open>OptT ok\<close> is \<open>-t\<close> where
  \<open>fopen\<close> succeeds iff \<open>ok\<close>, \<open>OptOther\<close> is any character \<open>getopt\<close> returns that is
  none of \<open>S K B p t v h\<close> (\<open>?\<close> for an unknown option or a missing argument).
  A result \<open>Inl n\<close> is \<open>exit(n)\<close>.
\<close>

datatype opt = OptS c_int | OptK c_int | OptB c_int | OptP string | OptT bool
  | OptV | OptH | OptOther

fun parse_options :: "opt list \<Rightarrow> globals \<Rightarrow> c_int + globals" where
  "parse_options [] g = Inr g"
| "parse_options (OptS n # rest) g =
     (if NOT_POWER2 n then Inl 1 else parse_options rest (g\<lparr>S := n\<rparr>))"
| "parse_options (OptK n # rest) g = parse_options rest (g\<lparr>K := n\<rparr>)"
| "parse_options (OptB n # rest) g = parse_options rest (g\<lparr>B := n\<rparr>)"
| "parse_options (OptP s # rest) g =
     parse_options rest
       (let g1 = (if s = ''FIFO'' then g\<lparr>policy := Some FIFO\<rparr> else g)
        in if s = ''LRU'' then g1\<lparr>policy := Some LRU\<rparr> else g1)"
| "parse_options (OptT ok # rest) g =
     (if \<not> ok then Inl 1 else parse_options rest (g\<lparr>trace_fp := True\<rparr>))"
| "parse_options (OptV # rest) g = parse_options rest g"
| "parse_options (OptH # rest) g = Inl 0"
| "parse_options (OptOther # rest) g = Inl 1"

definition parse_arguments :: "opt list \<Rightarrow> globals \<Rightarrow> c_int + globals" where
  "parse_arguments argv g =
     (case parse_options argv g of
        Inl n \<Rightarrow> Inl n
      | Inr g' \<Rightarrow>
          if S g' \<le>s 0 \<or> K g' \<le>s 0 \<or> B g' \<le>s 0 \<or> policy g' = None \<or> \<not> trace_fp g'
          then Inl 1
          else Inr (g'\<lparr>B_temp := INT_LOG2 (B g')\<rparr>))"

text \<open>
  \<open>main\<close> returns the exit status and, when the trace was replayed, the three counts
  that \<open>print_summary\<close> prints: hits, misses, evictions.
\<close>

definition main :: "opt list \<Rightarrow> scan list \<Rightarrow> c_int \<times> (c_int \<times> c_int \<times> c_int) option" where
  "main argv trace =
     (case parse_arguments argv initial_globals of
        Inl n \<Rightarrow> (n, None)
      | Inr g \<Rightarrow>
          (let g' = replay_trace trace (allocate_cache g)
           in (0, Some (hit_count g', miss_count g', eviction_count g'))))"

section \<open>Predicates and example states used in the statements\<close>

text \<open>
  \<open>first_min set_cache k v\<close>: among the first \<open>k\<close> lines of the set, line \<open>v\<close> has the
  smallest \<open>countBlock\<close> (read as a signed \<open>long\<close>, as the comparison of the code does),
  and every line before \<open>v\<close> has a strictly greater one.
\<close>

definition first_min :: "SetCache \<Rightarrow> nat \<Rightarrow> nat \<Rightarrow> bool" where
  "first_min set_cache k v \<longleftrightarrow>
     (\<forall>j<k. sint (countBlock (set_cache ! v)) \<le> sint (countBlock (set_cache ! j))) \<and>
     (\<forall>j<v. sint (countBlock (set_cache ! v)) < sint (countBlock (set_cache ! j)))"


text \<open>A state with one full set of three lines; two lines share the smallest count.\<close>

definition full_set_state :: "Policy \<Rightarrow> globals" where
  "full_set_state p =
     initial_globals\<lparr>S := 1, K := 3, B := 1, policy := Some p, trace_fp := True,
       num_fifo := 9, num_lru := 9,
       cache := [[\<lparr>tagBits = 10, countBlock = 7, validBits = 1\<rparr>,
                  \<lparr>tagBits = 20, countBlock = 4, validBits = 1\<rparr>,
                  \<lparr>tagBits = 30, countBlock = 4, validBits = 1\<rparr>]]\<rparr>"



text \<open>
  \<open>cache_ok g\<close>: what \<open>parse_arguments\<close> and \<open>allocate_cache\<close> establish and every access
  keeps: \<open>K\<close> is positive, a policy is set, the cache has a set for every set number the
  mask lets through, and every set has \<open>K\<close> lines.
\<close>

definition cache_ok :: "globals \<Rightarrow> bool" where
  "cache_ok g \<longleftrightarrow>
     0 < sint (K g) \<and> policy g \<noteq> None \<and> unat (setMask g) < length (cache g) \<and>
     (\<forall>sc\<in>set (cache g). length sc = nat (sint (K g)))"

text \<open>
  \<open>line_present g addr\<close>: the set of \<open>addr\<close> holds a valid line with the tag of \<open>addr\<close>,
  the test of the first loop of \<open>access_data\<close>.
\<close>

definition line_present :: "globals \<Rightarrow> c_ulong \<Rightarrow> bool" where
  "line_present g addr \<longleftrightarrow>
     (\<exists>j<nat (sint (K g)).
        tagBits (cache g ! unat (num_set_of g addr) ! j) = num_tag_of g addr \<and>
        validBits (cache g ! unat (num_set_of g addr) ! j) \<noteq> 0)"

text \<open>
  The slot of its set that an access reads or writes (the matching line, else the first
  invalid line, else the victim) and the line that the slot holds after the access.
  Lemma \<open>access_data_nth\<close> shows that \<open>access_data\<close> changes the cache at this slot only,
  to this line.
\<close>

definition access_slot :: "globals \<Rightarrow> c_ulong \<Rightarrow> nat" where
  "access_slot g addr =
     (let set_cache = cache g ! unat (num_set_of g addr); k = nat (sint (K g)) in
      case find_tag set_cache k (num_tag_of g addr) of
        Some idx \<Rightarrow> idx
      | None \<Rightarrow>
          (case find_inv set_cache k of
             Some inv_idx \<Rightarrow> inv_idx
           | None \<Rightarrow> if policy g = Some LRU then lru_victim set_cache k
                     else fifo_victim set_cache k))"

definition access_line :: "globals \<Rightarrow> c_ulong \<Rightarrow> BlockCache" where
  "access_line g addr =
     (let old = cache g ! unat (num_set_of g addr) ! access_slot g addr;
          hit = line_present g addr;
          full = (find_inv (cache g ! unat (num_set_of g addr)) (nat (sint (K g))) = None)
      in \<lparr>tagBits = num_tag_of g addr,
          countBlock = (if policy g = Some LRU then ucast (num_lru g + 1)
                        else if hit then countBlock old else ucast (num_fifo g + 1)),
          validBits = (if hit \<or> (full \<and> policy g = Some LRU) then validBits old else 1)\<rparr>)"

text \<open>
  \<open>same_lines g1 g2\<close>: two runs with the same geometry and the same counts whose caches
  hold the same tags in the same slots, valid in one run iff valid in the other. The
  clocks, the \<open>countBlock\<close> values and the policies may differ.
\<close>

definition same_lines :: "globals \<Rightarrow> globals \<Rightarrow> bool" where
  "same_lines g1 g2 \<longleftrightarrow>
     K g1 = K g2 \<and> B g1 = B g2 \<and> B_temp g1 = B_temp g2 \<and> S_temp g1 = S_temp g2 \<and>
     setMask g1 = setMask g2 \<and>
     hit_count g1 = hit_count g2 \<and> miss_count g1 = miss_count g2 \<and>
     eviction_count g1 = eviction_count g2 \<and>
     (\<forall>m j. tagBits (cache g1 ! m ! j) = tagBits (cache g2 ! m ! j) \<and>
            (validBits (cache g1 ! m ! j) = 0) = (validBits (cache g2 ! m ! j) = 0))"

text \<open>
  The part of the state that an access to set \<open>n\<close> reads and writes: the lines of the
  set, the two clocks and the eviction count. \<open>set_access\<close> is \<open>access_data\<close> on this
  part, for policy \<open>p\<close>, \<open>k\<close> lines and tag \<open>t\<close> (lemma \<open>set_view_access\<close>).
\<close>

definition set_view :: "nat \<Rightarrow> globals \<Rightarrow> SetCache \<times> c_uint \<times> c_uint \<times> c_int" where
  "set_view n g = (cache g ! n, num_lru g, num_fifo g, eviction_count g)"

definition set_access ::
  "Policy \<Rightarrow> nat \<Rightarrow> c_ulong \<Rightarrow> SetCache \<times> c_uint \<times> c_uint \<times> c_int
     \<Rightarrow> SetCache \<times> c_uint \<times> c_uint \<times> c_int" where
  "set_access p k t v =
     (case v of (sc, lru, fifo, ev) \<Rightarrow>
        (case find_tag sc k t of
           Some idx \<Rightarrow>
             (if p = LRU
              then (sc[idx := (sc ! idx)\<lparr>countBlock := ucast (lru + 1)\<rparr>], lru + 1, fifo, ev)
              else (sc, lru, fifo, ev))
         | None \<Rightarrow>
             (case find_inv sc k of
                Some inv_idx \<Rightarrow>
                  (if p = LRU
                   then (sc[inv_idx := \<lparr>tagBits = t, countBlock = ucast (lru + 1), validBits = 1\<rparr>],
                         lru + 1, fifo, ev)
                   else (sc[inv_idx := \<lparr>tagBits = t, countBlock = ucast (fifo + 1), validBits = 1\<rparr>],
                         lru, fifo + 1, ev))
              | None \<Rightarrow>
                  (if p = LRU
                   then (sc[lru_victim sc k := (sc ! lru_victim sc k)
                              \<lparr>countBlock := ucast (lru + 1), tagBits := t\<rparr>],
                         lru + 1, fifo, ev + 1)
                   else (sc[fifo_victim sc k :=
                              \<lparr>tagBits = t, countBlock = ucast (fifo + 1), validBits = 1\<rparr>],
                         lru, fifo + 1, ev + 1)))))"

text \<open>A trace of one-byte Loads, and the tags held by the slots of a set.\<close>

definition loads :: "c_ulong list \<Rightarrow> scan list" where
  "loads as = map (\<lambda>a. Scanned CHR ''L'' a 1) as"

definition set_tags :: "globals \<Rightarrow> nat \<Rightarrow> c_ulong list" where
  "set_tags g n = map tagBits (cache g ! n)"

text \<open>The state after \<open>allocate_cache\<close> for one set of two lines.\<close>

definition two_way :: "Policy \<Rightarrow> globals" where
  "two_way p =
     allocate_cache
       (initial_globals\<lparr>S := 1, K := 2, B := 1, policy := Some p, trace_fp := True\<rparr>)"

text \<open>
  \<open>split_tags e g1 g2\<close> relates the run of the code, \<open>g1\<close>, where \<open>S_temp\<close> is 0 and the
  tag of an address keeps its \<open>e\<close> set-index bits, to a run \<open>g2\<close> where \<open>S_temp\<close> is \<open>e\<close>
  and the tag is shifted by \<open>e\<close> more bits. Everything but the stored tags is equal;
  a valid line of set \<open>m\<close> has the number \<open>m\<close> in the low \<open>e\<close> bits of its tag in \<open>g1\<close>,
  and the remaining bits are its tag in \<open>g2\<close>.
\<close>

definition split_tags :: "nat \<Rightarrow> globals \<Rightarrow> globals \<Rightarrow> bool" where
  "split_tags e g1 g2 \<longleftrightarrow>
     K g1 = K g2 \<and> B g1 = B g2 \<and> policy g1 = policy g2 \<and> B_temp g1 = B_temp g2 \<and>
     setMask g1 = mask e \<and> setMask g2 = mask e \<and>
     S_temp g1 = 0 \<and> 0 \<le> sint (B_temp g1) \<and>
     sint (S_temp g2 + B_temp g2) = int e + sint (B_temp g2) \<and>
     num_lru g1 = num_lru g2 \<and> num_fifo g1 = num_fifo g2 \<and>
     hit_count g1 = hit_count g2 \<and> miss_count g1 = miss_count g2 \<and>
     eviction_count g1 = eviction_count g2 \<and>
     length (cache g1) = length (cache g2) \<and>
     (\<forall>m j. countBlock (cache g1 ! m ! j) = countBlock (cache g2 ! m ! j) \<and>
            validBits (cache g1 ! m ! j) = validBits (cache g2 ! m ! j)) \<and>
     (\<forall>m<length (cache g1). \<forall>j<nat (sint (K g1)).
        validBits (cache g1 ! m ! j) \<noteq> 0 \<longrightarrow>
          tagBits (cache g1 ! m ! j) AND mask e = word_of_nat m \<and>
          tagBits (cache g2 ! m ! j) = drop_bit e (tagBits (cache g1 ! m ! j)))"

section \<open>Facts about the machine integers\<close>

lemma sint_pos_dec:
  fixes x :: c_int
  assumes "0 <s x"
  shows "sint (x - 1) = sint x - 1"
proof -
  have pos: "0 < sint x" using assms by (simp add: word_sless_alt)
  have "sint x < 2 ^ 31" using sint_lt [of x] by simp
  with pos have "signed_take_bit 31 (sint x - 1) = sint x - 1"
    by (simp add: signed_take_bit_int_eq_self)
  then show ?thesis by (simp add: sint_word_diff)
qed

lemma unat_scast_nonneg:
  fixes y :: c_int
  assumes "0 \<le> sint y"
  shows "unat (scast y :: c_ulong) = nat (sint y)"
proof -
  have "sint y < 2 ^ 31" using sint_lt [of y] by simp
  moreover have "(2::int) ^ 31 < 2 ^ 64" by simp
  ultimately have lt: "sint y < 2 ^ 64" by (rule less_trans)
  have "uint (word_of_int (sint y) :: c_ulong) = take_bit LENGTH(64) (sint y)"
    by (rule uint_word_of_int_eq)
  then have "uint (scast y :: c_ulong) = take_bit 64 (sint y)"
    by simp
  also have "\<dots> = sint y"
    using assms lt by (rule take_bit_int_eq_self)
  finally show ?thesis by (simp add: unat_eq_nat_uint)
qed

lemma unat_setMask:
  fixes x :: c_int
  assumes "0 <s x"
  shows "unat (scast (x - 1) :: c_ulong) = nat (sint x) - 1"
proof -
  have pos: "0 < sint x" using assms by (simp add: word_sless_alt)
  have "0 \<le> sint (x - 1)" using pos sint_pos_dec [OF assms] by simp
  then have "unat (scast (x - 1) :: c_ulong) = nat (sint (x - 1))"
    by (rule unat_scast_nonneg)
  also have "\<dots> = nat (sint x) - 1"
    using pos sint_pos_dec [OF assms] by (simp add: nat_diff_distrib')
  finally show ?thesis .
qed

section \<open>Victim selection\<close>

lemma find_tag_None:
  "find_tag sc k t = None \<longleftrightarrow> (\<forall>j<k. \<not> (tagBits (sc ! j) = t \<and> validBits (sc ! j) \<noteq> 0))"
  by (auto simp: find_tag_def find_None_iff)

lemma find_inv_None:
  "find_inv sc k = None \<longleftrightarrow> (\<forall>j<k. validBits (sc ! j) \<noteq> 0)"
  by (auto simp: find_inv_def find_None_iff)

lemma lru_fold_inv:
  "fold (\<lambda>idx (lowest_count, lowest_count_idx).
            if countBlock (sc ! idx) <s lowest_count
            then (countBlock (sc ! idx), idx)
            else (lowest_count, lowest_count_idx))
      [0..<k] (countBlock (sc ! 0), 0) = (lc, li)
   \<Longrightarrow> lc = countBlock (sc ! li) \<and> (li = 0 \<or> li < k) \<and> first_min sc k li"
proof (induction k arbitrary: lc li)
  case 0
  then show ?case by (simp add: first_min_def)
next
  case (Suc k)
  obtain lc0 li0 where f: "fold (\<lambda>idx (lowest_count, lowest_count_idx).
            if countBlock (sc ! idx) <s lowest_count
            then (countBlock (sc ! idx), idx)
            else (lowest_count, lowest_count_idx))
      [0..<k] (countBlock (sc ! 0), 0) = (lc0, li0)"
    by (cases "fold (\<lambda>idx (lowest_count, lowest_count_idx).
            if countBlock (sc ! idx) <s lowest_count
            then (countBlock (sc ! idx), idx)
            else (lowest_count, lowest_count_idx))
      [0..<k] (countBlock (sc ! 0), 0)") auto
  from Suc.IH [OF f] have ih: "lc0 = countBlock (sc ! li0)" "li0 = 0 \<or> li0 < k" "first_min sc k li0"
    by simp_all
  show ?case
  proof (cases "countBlock (sc ! k) <s lc0")
    case True
    with Suc.prems f have "lc = countBlock (sc ! k)" "li = k" by auto
    moreover have "first_min sc (Suc k) k"
      using ih True unfolding first_min_def word_sless_alt
      by (auto simp: less_Suc_eq)
    ultimately show ?thesis by simp
  next
    case False
    with Suc.prems f have "lc = lc0" "li = li0" by simp_all
    moreover have "first_min sc (Suc k) li0"
      using ih False unfolding first_min_def word_sless_alt
      by (auto simp: less_Suc_eq)
    ultimately show ?thesis using ih by auto
  qed
qed

lemma fifo_fold_inv:
  "fold (\<lambda>idx recent.
             if countBlock (sc ! idx) <s countBlock (sc ! recent)
             then idx else recent) [0..<k] 0 = r
   \<Longrightarrow> (r = 0 \<or> r < k) \<and> first_min sc k r"
proof (induction k arbitrary: r)
  case 0
  then show ?case by (simp add: first_min_def)
next
  case (Suc k)
  define r0 where "r0 = fold (\<lambda>idx recent.
             if countBlock (sc ! idx) <s countBlock (sc ! recent)
             then idx else recent) [0..<k] 0"
  from Suc.IH [OF r0_def [symmetric]] have ih: "r0 = 0 \<or> r0 < k" "first_min sc k r0"
    by simp_all
  show ?case
  proof (cases "countBlock (sc ! k) <s countBlock (sc ! r0)")
    case True
    with Suc.prems r0_def have "r = k" by simp
    moreover have "first_min sc (Suc k) k"
      using ih True unfolding first_min_def word_sless_alt
      by (auto simp: less_Suc_eq)
    ultimately show ?thesis by simp
  next
    case False
    with Suc.prems r0_def have "r = r0" by simp
    moreover have "first_min sc (Suc k) r0"
      using ih False unfolding first_min_def word_sless_alt
      by (auto simp: less_Suc_eq)
    ultimately show ?thesis using ih by auto
  qed
qed

lemma lru_victim_first_min: "0 < k \<Longrightarrow> lru_victim sc k < k \<and> first_min sc k (lru_victim sc k)"
  unfolding lru_victim_def
  using lru_fold_inv [of sc k] by (metis (no_types, lifting) prod.collapse)

lemma fifo_victim_first_min: "0 < k \<Longrightarrow> fifo_victim sc k < k \<and> first_min sc k (fifo_victim sc k)"
  unfolding fifo_victim_def
  using fifo_fold_inv [of sc k] by auto


lemma full_set_state_simps:
  "policy (full_set_state p) = Some p"
  "nat (sint (K (full_set_state p))) = 3"
  "unat (num_set_of (full_set_state p) addr) = 0"
  "num_tag_of (full_set_state p) addr = addr"
  "cache (full_set_state p) = [[\<lparr>tagBits = 10, countBlock = 7, validBits = 1\<rparr>,
                  \<lparr>tagBits = 20, countBlock = 4, validBits = 1\<rparr>,
                  \<lparr>tagBits = 30, countBlock = 4, validBits = 1\<rparr>]]"
  by (simp_all add: full_set_state_def initial_globals_def num_set_of_def num_tag_of_def)


text \<open>
  Claim C2. Under either policy, when an access misses in a set whose \<open>K\<close> lines are all
  valid, the line that \<open>access_data\<close> overwrites with the new tag is the line with the
  smallest \<open>countBlock\<close> of the set and, among lines sharing that smallest value, the one
  with the lowest index; every other line of the set is unchanged and the eviction count
  goes up by one.
\<close>

theorem victim_first_minimum:
  assumes pol: "policy g = Some p"
    and k: "0 < nat (sint (K g))"
    and n: "unat (num_set_of g addr) < length (cache g)"
    and len: "length (cache g ! unat (num_set_of g addr)) = nat (sint (K g))"
    and full: "\<forall>j<nat (sint (K g)). validBits (cache g ! unat (num_set_of g addr) ! j) \<noteq> 0"
    and miss: "\<forall>j<nat (sint (K g)). tagBits (cache g ! unat (num_set_of g addr) ! j) \<noteq> num_tag_of g addr"
  shows "\<exists>v<nat (sint (K g)).
           first_min (cache g ! unat (num_set_of g addr)) (nat (sint (K g))) v \<and>
           tagBits (cache (access_data g addr) ! unat (num_set_of g addr) ! v) = num_tag_of g addr \<and>
           (\<forall>j<nat (sint (K g)). j \<noteq> v \<longrightarrow>
              cache (access_data g addr) ! unat (num_set_of g addr) ! j =
              cache g ! unat (num_set_of g addr) ! j) \<and>
           eviction_count (access_data g addr) = eviction_count g + 1"
proof -
  let ?k = "nat (sint (K g))" and ?n = "unat (num_set_of g addr)"
  let ?sc = "cache g ! ?n"
  have ft: "find_tag ?sc ?k (num_tag_of g addr) = None"
    using miss by (simp add: find_tag_None)
  have fi: "find_inv ?sc ?k = None"
    using full by (simp add: find_inv_None)
  show ?thesis
  proof (cases p)
    case FIFO
    let ?v = "fifo_victim ?sc ?k"
    have v: "?v < ?k" "first_min ?sc ?k ?v"
      using fifo_victim_first_min [OF k] by simp_all
    have "cache (access_data g addr) ! ?n =
            ?sc[?v := \<lparr>tagBits = num_tag_of g addr, countBlock = ucast (num_fifo g + 1), validBits = 1\<rparr>]"
      and "eviction_count (access_data g addr) = eviction_count g + 1"
      using pol FIFO ft fi n by (simp_all add: access_data_def Let_def)
    with v len show ?thesis by (intro exI [of _ ?v]) simp
  next
    case LRU
    let ?v = "lru_victim ?sc ?k"
    have v: "?v < ?k" "first_min ?sc ?k ?v"
      using lru_victim_first_min [OF k] by simp_all
    have "cache (access_data g addr) ! ?n =
            ?sc[?v := (?sc ! ?v)\<lparr>countBlock := ucast (num_lru g + 1), tagBits := num_tag_of g addr\<rparr>]"
      and "eviction_count (access_data g addr) = eviction_count g + 1"
      using pol LRU ft fi n by (simp_all add: access_data_def Let_def)
    with v len show ?thesis by (intro exI [of _ ?v]) simp
  qed
qed



theorem victim_first_minimum_witness:
  "(\<exists>v<3. first_min (cache (full_set_state LRU) ! 0) 3 v \<and>
         tagBits (cache (access_data (full_set_state LRU) 40) ! 0 ! v) = 40 \<and>
         (\<forall>j<3. j \<noteq> v \<longrightarrow>
            cache (access_data (full_set_state LRU) 40) ! 0 ! j =
            cache (full_set_state LRU) ! 0 ! j) \<and>
         eviction_count (access_data (full_set_state LRU) 40) =
           eviction_count (full_set_state LRU) + 1) \<and>
   (\<exists>v<3. first_min (cache (full_set_state FIFO) ! 0) 3 v \<and>
         tagBits (cache (access_data (full_set_state FIFO) 40) ! 0 ! v) = 40 \<and>
         (\<forall>j<3. j \<noteq> v \<longrightarrow>
            cache (access_data (full_set_state FIFO) 40) ! 0 ! j =
            cache (full_set_state FIFO) ! 0 ! j) \<and>
         eviction_count (access_data (full_set_state FIFO) 40) =
           eviction_count (full_set_state FIFO) + 1)"
proof -
  have full: "\<forall>j<3. validBits (cache (full_set_state p) ! 0 ! j) \<noteq> 0"
    and miss: "\<forall>j<3. tagBits (cache (full_set_state p) ! 0 ! j) \<noteq> 40" for p
    by (simp_all add: full_set_state_simps numeral_3_eq_3 less_Suc_eq)
  show ?thesis
    using victim_first_minimum [of "full_set_state LRU" LRU 40]
      victim_first_minimum [of "full_set_state FIFO" FIFO 40] full miss
    by (simp add: full_set_state_simps)
qed

section \<open>The program at three concrete command lines\<close>

text \<open>
  Claim C1. The claim says the tag of an address is
  \<open>address >> (setIndexBits + blockOffsetBits)\<close> with \<open>setIndexBits = log2(S)\<close>. The code
  shifts by \<open>S_temp + B_temp\<close>, and \<open>parse_arguments\<close> stores \<open>INT_LOG2(S)\<close> in the local
  \<open>c\<close>, never in \<open>S_temp\<close>, which stays 0. With \<open>-S 2 -K 1 -B 1\<close> the address 3 lies in
  set 1 and gets the tag 3, where the claim's formula gives 1.
\<close>

theorem tag_keeps_set_index_bits:
  "(case parse_arguments [OptS 2, OptK 1, OptB 1, OptP ''LRU'', OptT True] initial_globals of
      Inl n \<Rightarrow> False
    | Inr g \<Rightarrow>
        S_temp g = 0 \<and>
        num_set_of (allocate_cache g) 3 = 1 \<and>
        num_tag_of (allocate_cache g) 3 = 3 \<and>
        drop_bit (nat (sint (INT_LOG2 (S g) + INT_LOG2 (B g)))) (3 :: c_ulong) = 1)"
  by code_simp

text \<open>
  Claim C8. The claim says a trace line that does not match the format is skipped and the
  lines after it are still replayed. The loop of \<open>replay_trace\<close> runs while \<open>fscanf\<close>
  returns 3, so the first line that does not match ends the replay: the Load after it is
  never replayed, and the run reports no access at all, where the same Load alone is a
  miss.
\<close>

theorem malformed_line_ends_replay:
  "main [OptS 1, OptK 1, OptB 1, OptP ''LRU'', OptT True] [ScanFail, Scanned CHR ''L'' 0 1]
     = (0, Some (0, 0, 0)) \<and>
   main [OptS 1, OptK 1, OptB 1, OptP ''LRU'', OptT True] [Scanned CHR ''L'' 0 1]
     = (0, Some (0, 1, 0))"
  by code_simp

text \<open>
  Claim C9. The claim says every invalid configuration ends the program with a non-zero
  status before the cache is allocated. \<open>parse_arguments\<close> tests only \<open>S\<close> with
  \<open>NOT_POWER2\<close>: with \<open>-B 3\<close> the program allocates the cache, replays the trace and
  returns 0. A \<open>-p\<close> with an unknown policy after a known one is accepted in the same way.
\<close>

theorem block_size_three_accepted:
  "main [OptS 1, OptK 1, OptB 3, OptP ''LRU'', OptT True] [Scanned CHR ''L'' 0 1]
     = (0, Some (0, 1, 0)) \<and>
   main [OptS 1, OptK 1, OptB 1, OptP ''LRU'', OptP ''MRU'', OptT True] [Scanned CHR ''L'' 0 1]
     = (0, Some (0, 1, 0))"
  by code_simp

section \<open>One access\<close>

lemma find_tag_Some:
  "find_tag sc k t = Some idx \<longleftrightarrow>
     idx < k \<and> tagBits (sc ! idx) = t \<and> validBits (sc ! idx) \<noteq> 0 \<and>
     (\<forall>j<idx. \<not> (tagBits (sc ! j) = t \<and> validBits (sc ! j) \<noteq> 0))"
  by (auto simp: find_tag_def find_Some_iff)

lemma find_inv_Some:
  "find_inv sc k = Some idx \<longleftrightarrow>
     idx < k \<and> validBits (sc ! idx) = 0 \<and> (\<forall>j<idx. validBits (sc ! j) \<noteq> 0)"
  by (auto simp: find_inv_def find_Some_iff)

lemma line_present_find_tag:
  "line_present g addr \<longleftrightarrow>
     find_tag (cache g ! unat (num_set_of g addr)) (nat (sint (K g))) (num_tag_of g addr) \<noteq> None"
  by (auto simp: line_present_def find_tag_None)

text \<open>The six branches of \<open>access_data\<close>.\<close>

lemma access_data_lru_hit:
  assumes "policy g = Some LRU"
    and "find_tag (cache g ! unat (num_set_of g addr)) (nat (sint (K g))) (num_tag_of g addr) = Some idx"
  shows "access_data g addr =
     g\<lparr>hit_count := hit_count g + 1, num_lru := num_lru g + 1,
       cache := (cache g)[unat (num_set_of g addr) :=
         (cache g ! unat (num_set_of g addr))[idx :=
            (cache g ! unat (num_set_of g addr) ! idx)\<lparr>countBlock := ucast (num_lru g + 1)\<rparr>]]\<rparr>"
  using assms by (simp add: access_data_def Let_def)

lemma access_data_lru_fill:
  assumes "policy g = Some LRU"
    and "find_tag (cache g ! unat (num_set_of g addr)) (nat (sint (K g))) (num_tag_of g addr) = None"
    and "find_inv (cache g ! unat (num_set_of g addr)) (nat (sint (K g))) = Some idx"
  shows "access_data g addr =
     g\<lparr>miss_count := miss_count g + 1, num_lru := num_lru g + 1,
       cache := (cache g)[unat (num_set_of g addr) :=
         (cache g ! unat (num_set_of g addr))[idx :=
            \<lparr>tagBits = num_tag_of g addr, countBlock = ucast (num_lru g + 1), validBits = 1\<rparr>]]\<rparr>"
  using assms by (simp add: access_data_def Let_def)

lemma access_data_lru_evict:
  assumes "policy g = Some LRU"
    and "find_tag (cache g ! unat (num_set_of g addr)) (nat (sint (K g))) (num_tag_of g addr) = None"
    and "find_inv (cache g ! unat (num_set_of g addr)) (nat (sint (K g))) = None"
  shows "access_data g addr =
     g\<lparr>miss_count := miss_count g + 1, eviction_count := eviction_count g + 1,
       num_lru := num_lru g + 1,
       cache := (cache g)[unat (num_set_of g addr) :=
         (cache g ! unat (num_set_of g addr))
           [lru_victim (cache g ! unat (num_set_of g addr)) (nat (sint (K g))) :=
            (cache g ! unat (num_set_of g addr) !
               lru_victim (cache g ! unat (num_set_of g addr)) (nat (sint (K g))))
              \<lparr>countBlock := ucast (num_lru g + 1), tagBits := num_tag_of g addr\<rparr>]]\<rparr>"
  using assms by (simp add: access_data_def Let_def)

lemma access_data_fifo_hit:
  assumes "policy g = Some FIFO"
    and "find_tag (cache g ! unat (num_set_of g addr)) (nat (sint (K g))) (num_tag_of g addr) = Some idx"
  shows "access_data g addr = g\<lparr>hit_count := hit_count g + 1\<rparr>"
  using assms by (simp add: access_data_def Let_def)

lemma access_data_fifo_fill:
  assumes "policy g = Some FIFO"
    and "find_tag (cache g ! unat (num_set_of g addr)) (nat (sint (K g))) (num_tag_of g addr) = None"
    and "find_inv (cache g ! unat (num_set_of g addr)) (nat (sint (K g))) = Some idx"
  shows "access_data g addr =
     g\<lparr>miss_count := miss_count g + 1, num_fifo := num_fifo g + 1,
       cache := (cache g)[unat (num_set_of g addr) :=
         (cache g ! unat (num_set_of g addr))[idx :=
            \<lparr>tagBits = num_tag_of g addr, countBlock = ucast (num_fifo g + 1), validBits = 1\<rparr>]]\<rparr>"
  using assms by (simp add: access_data_def Let_def)

lemma access_data_fifo_evict:
  assumes "policy g = Some FIFO"
    and "find_tag (cache g ! unat (num_set_of g addr)) (nat (sint (K g))) (num_tag_of g addr) = None"
    and "find_inv (cache g ! unat (num_set_of g addr)) (nat (sint (K g))) = None"
  shows "access_data g addr =
     g\<lparr>miss_count := miss_count g + 1, eviction_count := eviction_count g + 1,
       num_fifo := num_fifo g + 1,
       cache := (cache g)[unat (num_set_of g addr) :=
         (cache g ! unat (num_set_of g addr))
           [fifo_victim (cache g ! unat (num_set_of g addr)) (nat (sint (K g))) :=
            \<lparr>tagBits = num_tag_of g addr, countBlock = ucast (num_fifo g + 1), validBits = 1\<rparr>]]\<rparr>"
  using assms by (simp add: access_data_def Let_def)

text \<open>An access changes only the counters, the clocks and the cache.\<close>

lemma access_data_frame:
  "S (access_data g addr) = S g"
  "K (access_data g addr) = K g"
  "B (access_data g addr) = B g"
  "policy (access_data g addr) = policy g"
  "trace_fp (access_data g addr) = trace_fp g"
  "B_temp (access_data g addr) = B_temp g"
  "S_temp (access_data g addr) = S_temp g"
  "setMask (access_data g addr) = setMask g"
  by (simp_all add: access_data_def Let_def split: option.splits Policy.splits)

lemma access_data_num:
  "num_tag_of (access_data g addr) a = num_tag_of g a"
  "num_set_of (access_data g addr) a = num_set_of g a"
  by (simp_all add: num_tag_of_def num_set_of_def access_data_frame)

lemma access_data_length:
  "length (cache (access_data g addr)) = length (cache g)"
  by (simp add: access_data_def Let_def split: option.splits Policy.splits)

lemma num_set_in_range:
  assumes "cache_ok g"
  shows "unat (num_set_of g addr) < length (cache g)"
proof -
  have "num_set_of g addr \<le> setMask g"
    unfolding num_set_of_def by (rule word_and_le2)
  then have "unat (num_set_of g addr) \<le> unat (setMask g)"
    by (simp add: word_le_nat_alt)
  with assms show ?thesis by (simp add: cache_ok_def)
qed

lemma set_length:
  assumes "cache_ok g"
  shows "length (cache g ! unat (num_set_of g addr)) = nat (sint (K g))"
  using assms num_set_in_range [OF assms, of addr] by (simp add: cache_ok_def)

lemma access_data_set_lengths:
  assumes "\<forall>sc\<in>set (cache g). length sc = k"
  shows "\<forall>sc\<in>set (cache (access_data g addr)). length sc = k"
proof -
  have upd: "\<forall>sc\<in>set ((cache g)[n := (cache g ! n)[i := l]]). length sc = k" for n i l
  proof (cases "n < length (cache g)")
    case True
    then have "length ((cache g ! n)[i := l]) = k" using assms by simp
    with assms show ?thesis
      by (metis insertE set_update_subset_insert subsetD)
  next
    case False
    then have "(cache g)[n := (cache g ! n)[i := l]] = cache g"
      by (simp add: list_update_beyond)
    with assms show ?thesis by simp
  qed
  show ?thesis
    using assms upd
    by (simp add: access_data_def Let_def split: option.splits Policy.splits)
qed

lemma access_data_cache_ok:
  assumes "cache_ok g"
  shows "cache_ok (access_data g addr)"
  using assms access_data_set_lengths [of g "nat (sint (K g))" addr]
  by (simp add: cache_ok_def access_data_frame access_data_length)

text \<open>A hit: one more hit, and no line changes its tag or its valid bit.\<close>

lemma access_data_hit:
  assumes ok: "cache_ok g" and present: "line_present g addr"
  shows "hit_count (access_data g addr) = hit_count g + 1"
    and "miss_count (access_data g addr) = miss_count g"
    and "eviction_count (access_data g addr) = eviction_count g"
    and "tagBits (cache (access_data g addr) ! m ! j) = tagBits (cache g ! m ! j)"
    and "validBits (cache (access_data g addr) ! m ! j) = validBits (cache g ! m ! j)"
proof -
  let ?n = "unat (num_set_of g addr)" and ?k = "nat (sint (K g))"
  let ?sc = "cache g ! ?n"
  obtain p where pol: "policy g = Some p"
    using ok by (auto simp: cache_ok_def)
  obtain idx where ft: "find_tag ?sc ?k (num_tag_of g addr) = Some idx"
    using present by (auto simp: line_present_find_tag)
  have n: "?n < length (cache g)" by (rule num_set_in_range [OF ok])
  have idx: "idx < length ?sc"
    using ft set_length [OF ok, of addr] by (simp add: find_tag_Some)
  have line: "tagBits ((?sc[idx := (?sc ! idx)\<lparr>countBlock := c\<rparr>]) ! j) = tagBits (?sc ! j)
            \<and> validBits ((?sc[idx := (?sc ! idx)\<lparr>countBlock := c\<rparr>]) ! j) = validBits (?sc ! j)"
    for c
    using idx by (cases "j = idx") simp_all
  have sets: "tagBits (((cache g)[?n := ?sc[idx := (?sc ! idx)\<lparr>countBlock := c\<rparr>]]) ! m ! j)
                = tagBits (cache g ! m ! j)
            \<and> validBits (((cache g)[?n := ?sc[idx := (?sc ! idx)\<lparr>countBlock := c\<rparr>]]) ! m ! j)
                = validBits (cache g ! m ! j)"
    for c
    using n line [of c] by (cases "m = ?n") simp_all
  show "hit_count (access_data g addr) = hit_count g + 1"
    and "miss_count (access_data g addr) = miss_count g"
    and "eviction_count (access_data g addr) = eviction_count g"
    and "tagBits (cache (access_data g addr) ! m ! j) = tagBits (cache g ! m ! j)"
    and "validBits (cache (access_data g addr) ! m ! j) = validBits (cache g ! m ! j)"
    using sets [of "ucast (num_lru g + 1)"]
    by (cases p; simp add: access_data_lru_hit [OF _ ft] access_data_fifo_hit [OF _ ft] pol)+
qed

lemma access_data_hit_present:
  assumes "cache_ok g" and "line_present g addr"
  shows "line_present (access_data g addr) a = line_present g a"
  using access_data_hit(4,5) [OF assms]
  by (simp add: line_present_def access_data_frame access_data_num)

text \<open>
  A miss: one more miss, an eviction exactly when the set has no invalid line, and the
  line of the address is in the cache afterwards.
\<close>

lemma access_data_miss:
  assumes ok: "cache_ok g" and absent: "\<not> line_present g addr"
  shows "miss_count (access_data g addr) = miss_count g + 1"
    and "hit_count (access_data g addr) = hit_count g"
    and "eviction_count (access_data g addr) =
           (if find_inv (cache g ! unat (num_set_of g addr)) (nat (sint (K g))) = None
            then eviction_count g + 1 else eviction_count g)"
    and "line_present (access_data g addr) addr"
proof -
  let ?n = "unat (num_set_of g addr)" and ?k = "nat (sint (K g))"
  let ?sc = "cache g ! ?n" and ?t = "num_tag_of g addr"
  let ?g' = "access_data g addr"
  obtain p where pol: "policy g = Some p"
    using ok by (auto simp: cache_ok_def)
  have k: "0 < ?k" using ok by (simp add: cache_ok_def)
  have ft: "find_tag ?sc ?k ?t = None"
    using absent by (simp add: line_present_find_tag)
  have n: "?n < length (cache g)" by (rule num_set_in_range [OF ok])
  have len: "length ?sc = ?k" by (rule set_length [OF ok])
  have counts: "miss_count ?g' = miss_count g + 1 \<and> hit_count ?g' = hit_count g \<and>
        eviction_count ?g' = (if find_inv ?sc ?k = None then eviction_count g + 1 else eviction_count g)"
    and stored: "\<exists>v<?k. tagBits (cache ?g' ! ?n ! v) = ?t \<and> validBits (cache ?g' ! ?n ! v) \<noteq> 0"
  proof (atomize (full), cases "find_inv ?sc ?k")
    case None
    then have valid: "\<forall>j<?k. validBits (?sc ! j) \<noteq> 0" by (simp add: find_inv_None)
    show "(miss_count ?g' = miss_count g + 1 \<and> hit_count ?g' = hit_count g \<and>
        eviction_count ?g' = (if find_inv ?sc ?k = None then eviction_count g + 1 else eviction_count g)) \<and>
        (\<exists>v<?k. tagBits (cache ?g' ! ?n ! v) = ?t \<and> validBits (cache ?g' ! ?n ! v) \<noteq> 0)"
    proof (cases p)
      case FIFO
      have v: "fifo_victim ?sc ?k < ?k" using fifo_victim_first_min [OF k] by simp
      show ?thesis
        using v n len None
        by (auto simp: access_data_fifo_evict [OF _ ft None] pol FIFO intro!: exI [of _ "fifo_victim ?sc ?k"])
    next
      case LRU
      have v: "lru_victim ?sc ?k < ?k" using lru_victim_first_min [OF k] by simp
      show ?thesis
        using v n len None valid
        by (auto simp: access_data_lru_evict [OF _ ft None] pol LRU intro!: exI [of _ "lru_victim ?sc ?k"])
    qed
  next
    case (Some idx)
    then have idx: "idx < ?k" by (simp add: find_inv_Some)
    show "(miss_count ?g' = miss_count g + 1 \<and> hit_count ?g' = hit_count g \<and>
        eviction_count ?g' = (if find_inv ?sc ?k = None then eviction_count g + 1 else eviction_count g)) \<and>
        (\<exists>v<?k. tagBits (cache ?g' ! ?n ! v) = ?t \<and> validBits (cache ?g' ! ?n ! v) \<noteq> 0)"
      using idx n len Some
      by (cases p) (auto simp: access_data_lru_fill [OF _ ft Some] access_data_fifo_fill [OF _ ft Some] pol
            intro!: exI [of _ idx])
  qed
  from counts show "miss_count ?g' = miss_count g + 1"
    and "hit_count ?g' = hit_count g"
    and "eviction_count ?g' =
           (if find_inv ?sc ?k = None then eviction_count g + 1 else eviction_count g)"
    by simp_all
  from stored show "line_present ?g' addr"
    by (simp add: line_present_def access_data_frame access_data_num)
qed

lemma access_data_then_present:
  assumes "cache_ok g"
  shows "line_present (access_data g addr) addr"
  using assms access_data_miss(4) [OF assms] access_data_hit_present [OF assms]
  by (cases "line_present g addr") simp_all

section \<open>What \<open>parse_arguments\<close> and \<open>allocate_cache\<close> establish\<close>

lemma parse_options_keeps:
  assumes "parse_options argv g = Inr g'"
  shows "B_temp g' = B_temp g \<and> S_temp g' = S_temp g \<and> setMask g' = setMask g \<and>
         num_fifo g' = num_fifo g \<and> num_lru g' = num_lru g \<and> cache g' = cache g \<and>
         miss_count g' = miss_count g \<and> hit_count g' = hit_count g \<and>
         eviction_count g' = eviction_count g \<and>
         (S g' = S g \<or> \<not> NOT_POWER2 (S g'))"
  using assms
proof (induction argv g rule: parse_options.induct)
  case (2 n rest g)
  then show ?case by (auto split: if_splits)
next
  case (5 s rest g)
  then show ?case by (auto simp: Let_def split: if_splits)
next
  case (6 ok rest g)
  then show ?case by (auto split: if_splits)
qed auto

lemma parse_arguments_accepts:
  assumes "parse_arguments argv initial_globals = Inr g"
  shows "0 <s S g" and "0 <s K g" and "0 <s B g" and "policy g \<noteq> None" and "trace_fp g"
    and "\<not> NOT_POWER2 (S g)" and "S_temp g = 0" and "B_temp g = INT_LOG2 (B g)"
    and "num_fifo g = 1" and "num_lru g = 1" and "cache g = []"
    and "miss_count g = 0" and "hit_count g = 0" and "eviction_count g = 0"
proof -
  obtain g' where po: "parse_options argv initial_globals = Inr g'"
    and chk: "\<not> (S g' \<le>s 0 \<or> K g' \<le>s 0 \<or> B g' \<le>s 0 \<or> policy g' = None \<or> \<not> trace_fp g')"
    and g: "g = g'\<lparr>B_temp := INT_LOG2 (B g')\<rparr>"
    using assms by (auto simp: parse_arguments_def split: sum.splits if_splits)
  note keeps = parse_options_keeps [OF po]
  from chk have "S g' \<noteq> 0" by auto
  with keeps have "\<not> NOT_POWER2 (S g')" by (auto simp: initial_globals_def)
  with chk g keeps
  show "0 <s S g" and "0 <s K g" and "0 <s B g" and "policy g \<noteq> None" and "trace_fp g"
    and "\<not> NOT_POWER2 (S g)" and "S_temp g = 0" and "B_temp g = INT_LOG2 (B g)"
    and "num_fifo g = 1" and "num_lru g = 1" and "cache g = []"
    and "miss_count g = 0" and "hit_count g = 0" and "eviction_count g = 0"
    by (simp_all add: initial_globals_def word_sle_eq word_sless_alt)
qed

lemma allocate_cache_ok:
  assumes "0 <s S g" and "0 <s K g" and "policy g \<noteq> None"
  shows "cache_ok (allocate_cache g)"
proof -
  have "0 < sint (S g)" using assms(1) by (simp add: word_sless_alt)
  then have "unat (scast (S g - 1) :: c_ulong) < nat (sint (S g))"
    using unat_setMask [OF assms(1)] by simp
  with assms(2,3) show ?thesis
    by (simp add: cache_ok_def allocate_cache_def word_sless_alt)
qed

lemma allocate_cache_frame:
  "S (allocate_cache g) = S g"
  "K (allocate_cache g) = K g"
  "B (allocate_cache g) = B g"
  "policy (allocate_cache g) = policy g"
  "B_temp (allocate_cache g) = B_temp g"
  "S_temp (allocate_cache g) = S_temp g"
  "num_fifo (allocate_cache g) = num_fifo g"
  "num_lru (allocate_cache g) = num_lru g"
  "miss_count (allocate_cache g) = miss_count g"
  "hit_count (allocate_cache g) = hit_count g"
  "eviction_count (allocate_cache g) = eviction_count g"
  "setMask (allocate_cache g) = scast (S g - 1)"
  by (simp_all add: allocate_cache_def)

lemma allocate_cache_line:
  assumes "n < nat (sint (S g))" and "j < nat (sint (K g))"
  shows "cache (allocate_cache g) ! n ! j = empty_block"
  using assms by (simp add: allocate_cache_def)

lemma allocate_cache_absent:
  assumes "cache_ok (allocate_cache g)"
  shows "\<not> line_present (allocate_cache g) addr"
proof -
  have "unat (num_set_of (allocate_cache g) addr) < nat (sint (S g))"
    using num_set_in_range [OF assms, of addr] by (simp add: allocate_cache_def)
  then show ?thesis
    by (auto simp: line_present_def allocate_cache_frame allocate_cache_line empty_block_def)
qed

lemma allocate_cache_find_inv:
  assumes "cache_ok (allocate_cache g)"
  shows "find_inv (cache (allocate_cache g) ! unat (num_set_of (allocate_cache g) addr))
           (nat (sint (K g))) = Some 0"
proof -
  have "unat (num_set_of (allocate_cache g) addr) < nat (sint (S g))"
    using num_set_in_range [OF assms, of addr] by (simp add: allocate_cache_def)
  moreover have "0 < nat (sint (K g))"
    using assms by (simp add: cache_ok_def allocate_cache_frame)
  ultimately show ?thesis
    by (simp add: find_inv_Some allocate_cache_line empty_block_def)
qed

section \<open>The cache after one access, line by line\<close>

lemma nth_nth_update:
  assumes "n < length c" and "i < length (c ! n)"
  shows "c[n := (c ! n)[i := l]] ! m ! j = (if m = n \<and> j = i then l else c ! m ! j)"
  using assms by (cases "m = n"; cases "j = i") simp_all

lemma access_slot_less:
  assumes "cache_ok g"
  shows "access_slot g addr < nat (sint (K g))"
proof -
  have k: "0 < nat (sint (K g))" using assms by (simp add: cache_ok_def)
  show ?thesis
    using lru_victim_first_min [OF k] fifo_victim_first_min [OF k]
    by (auto simp: access_slot_def Let_def find_tag_Some find_inv_Some split: option.splits)
qed

lemma access_data_cache:
  assumes ok: "cache_ok g"
  shows "cache (access_data g addr) =
           (cache g)[unat (num_set_of g addr) :=
              (cache g ! unat (num_set_of g addr))[access_slot g addr := access_line g addr]]"
proof -
  let ?n = "unat (num_set_of g addr)" and ?k = "nat (sint (K g))"
  let ?sc = "cache g ! ?n" and ?t = "num_tag_of g addr"
  obtain p where pol: "policy g = Some p"
    using ok by (auto simp: cache_ok_def)
  show ?thesis
  proof (cases "find_tag ?sc ?k ?t")
    case (Some idx)
    then have pres: "line_present g addr" by (simp add: line_present_find_tag)
    have slot: "access_slot g addr = idx" using Some by (simp add: access_slot_def)
    have tag: "tagBits (?sc ! idx) = ?t" using Some by (simp add: find_tag_Some)
    have fifo: "access_line g addr = ?sc ! idx" if "p = FIFO"
      using that pol pres slot tag
      by (cases "?sc ! idx") (simp add: access_line_def Let_def)
    have lru: "access_line g addr = (?sc ! idx)\<lparr>countBlock := ucast (num_lru g + 1)\<rparr>" if "p = LRU"
      using that pol pres slot tag
      by (cases "?sc ! idx") (simp add: access_line_def Let_def)
    show ?thesis
    proof (cases p)
      case FIFO
      then show ?thesis
        using pol fifo slot by (simp add: access_data_fifo_hit [OF _ Some])
    next
      case LRU
      then show ?thesis
        using pol lru slot by (simp add: access_data_lru_hit [OF _ Some])
    qed
  next
    case None
    then have abs: "\<not> line_present g addr" by (simp add: line_present_find_tag)
    show ?thesis
    proof (cases "find_inv ?sc ?k")
      case inv: None
      show ?thesis
      proof (cases p)
        case FIFO
        then show ?thesis
          using pol abs None inv
          by (simp add: access_data_fifo_evict [OF _ None inv] access_slot_def access_line_def)
      next
        case LRU
        then show ?thesis
          using pol abs None inv
          by (cases "?sc ! lru_victim ?sc ?k")
            (simp add: access_data_lru_evict [OF _ None inv] access_slot_def access_line_def)
      qed
    next
      case inv: (Some i)
      show ?thesis
      proof (cases p)
        case FIFO
        then show ?thesis
          using pol abs None inv
          by (simp add: access_data_fifo_fill [OF _ None inv] access_slot_def access_line_def)
      next
        case LRU
        then show ?thesis
          using pol abs None inv
          by (simp add: access_data_lru_fill [OF _ None inv] access_slot_def access_line_def)
      qed
    qed
  qed
qed

lemma access_data_nth:
  assumes ok: "cache_ok g"
  shows "cache (access_data g addr) ! m ! j =
           (if m = unat (num_set_of g addr) \<and> j = access_slot g addr
            then access_line g addr else cache g ! m ! j)"
proof -
  have "access_slot g addr < length (cache g ! unat (num_set_of g addr))"
    using access_slot_less [OF ok, of addr] by (simp add: set_length [OF ok])
  with num_set_in_range [OF ok, of addr] show ?thesis
    by (simp only: access_data_cache [OF ok] nth_nth_update)
qed

lemma access_line_valid:
  assumes ok: "cache_ok g"
  shows "validBits (access_line g addr) \<noteq> 0"
proof -
  let ?sc = "cache g ! unat (num_set_of g addr)" and ?k = "nat (sint (K g))"
  have slot: "access_slot g addr < ?k" by (rule access_slot_less [OF ok])
  have hit: "validBits (?sc ! access_slot g addr) \<noteq> 0" if pres: "line_present g addr"
  proof -
    obtain idx where ft: "find_tag ?sc ?k (num_tag_of g addr) = Some idx"
      using pres by (cases "find_tag ?sc ?k (num_tag_of g addr)") (simp_all add: line_present_find_tag)
    then have "access_slot g addr = idx" by (simp add: access_slot_def)
    with ft show ?thesis by (simp add: find_tag_Some)
  qed
  have full: "validBits (?sc ! access_slot g addr) \<noteq> 0" if "find_inv ?sc ?k = None"
    using that slot by (simp add: find_inv_None)
  show ?thesis
    using hit full by (auto simp: access_line_def Let_def)
qed

lemma access_data_counts:
  assumes ok: "cache_ok g"
  shows "hit_count (access_data g addr) =
           (if line_present g addr then hit_count g + 1 else hit_count g)"
    and "miss_count (access_data g addr) =
           (if line_present g addr then miss_count g else miss_count g + 1)"
    and "eviction_count (access_data g addr) =
           (if \<not> line_present g addr \<and>
               find_inv (cache g ! unat (num_set_of g addr)) (nat (sint (K g))) = None
            then eviction_count g + 1 else eviction_count g)"
  using access_data_hit(1-3) [OF ok, of addr] access_data_miss(1-3) [OF ok, of addr]
  by (cases "line_present g addr"; simp)+

lemma access_data_clocks:
  assumes ok: "cache_ok g"
  shows "num_lru (access_data g addr) =
           (if policy g = Some LRU then num_lru g + 1 else num_lru g)"
    and "num_fifo (access_data g addr) =
           (if policy g = Some FIFO \<and> \<not> line_present g addr then num_fifo g + 1 else num_fifo g)"
  by (auto simp: access_data_def Let_def line_present_find_tag split: option.splits Policy.splits)

section \<open>The same address again and again\<close>

lemma replay_record_single:
  assumes "c = CHR ''L'' \<or> c = CHR ''S''" and "sz \<le> 1"
  shows "replay_record c a sz g = access_data g a"
  using assms(1) leD [OF assms(2)] by (auto simp: replay_record_def record_accesses_def)

lemma replay_repeat_present:
  assumes "cache_ok g" and "line_present g a"
    and "c = CHR ''L'' \<or> c = CHR ''S''" and "sz \<le> 1"
  shows "hit_count (replay_trace (replicate n (Scanned c a sz)) g) = hit_count g + word_of_nat n \<and>
         miss_count (replay_trace (replicate n (Scanned c a sz)) g) = miss_count g \<and>
         eviction_count (replay_trace (replicate n (Scanned c a sz)) g) = eviction_count g"
  using assms(1,2)
proof (induction n arbitrary: g)
  case 0
  then show ?case by simp
next
  case (Suc n)
  let ?g1 = "access_data g a"
  have ok1: "cache_ok ?g1" by (rule access_data_cache_ok [OF Suc.prems(1)])
  have pr1: "line_present ?g1 a"
    by (simp add: access_data_hit_present [OF Suc.prems] Suc.prems(2))
  note hit = access_data_hit(1-3) [OF Suc.prems]
  show ?case
    using Suc.IH [OF ok1 pr1] hit
    by (simp add: replay_record_single [OF assms(3,4)])
qed

lemma sint_word_of_nat:
  assumes "m < 2 ^ 31"
  shows "sint (word_of_nat m :: c_int) = int m"
proof -
  have "int m < 2 ^ 31" using assms by (metis of_nat_less_numeral_power_cancel_iff)
  then have "signed_take_bit 31 (int m) = int m"
    by (simp add: signed_take_bit_int_eq_self)
  then show ?thesis by (simp add: signed_of_nat)
qed

lemma repeated_address_words:
  assumes "parse_arguments argv initial_globals = Inr g"
    and "c = CHR ''L'' \<or> c = CHR ''S''" and "sz \<le> 1" and "0 < N"
  shows "main argv (replicate N (Scanned c a sz)) = (0, Some (word_of_nat (N - 1), 1, 0))"
proof -
  note acc = parse_arguments_accepts [OF assms(1)]
  let ?g0 = "allocate_cache g"
  let ?g1 = "access_data ?g0 a"
  have ok0: "cache_ok ?g0" by (rule allocate_cache_ok [OF acc(1,2,4)])
  have absent: "\<not> line_present ?g0 a" by (rule allocate_cache_absent [OF ok0])
  have inv0: "find_inv (cache ?g0 ! unat (num_set_of ?g0 a)) (nat (sint (K ?g0))) = Some 0"
    using allocate_cache_find_inv [OF ok0, of a] by (simp add: allocate_cache_frame)
  have first: "miss_count ?g1 = 1" "hit_count ?g1 = 0" "eviction_count ?g1 = 0"
    using access_data_miss(1-3) [OF ok0 absent] inv0 acc(12-14)
    by (simp_all add: allocate_cache_frame)
  have ok1: "cache_ok ?g1" by (rule access_data_cache_ok [OF ok0])
  have pr1: "line_present ?g1 a" by (rule access_data_miss(4) [OF ok0 absent])
  obtain n where N: "N = Suc n" using assms(4) by (cases N) simp_all
  show ?thesis
    using replay_repeat_present [OF ok1 pr1 assms(2,3), of n] first
    by (simp add: main_def assms(1) N replay_record_single [OF assms(2,3)])
qed

text \<open>
  Claim C6, as the code has it. From the empty cache, for every accepted command line
  (any geometry with \<open>K \<ge> 1\<close>, either policy) and every \<open>N\<close> from 1 to \<open>2^31\<close>, a trace of
  \<open>N\<close> Load or Store records of the same address and of length at most one byte gives
  exactly 1 miss, \<open>N - 1\<close> hits and 0 evictions: the three counters, read as C \<open>int\<close>s,
  are the numbers \<open>N - 1\<close>, 1 and 0.
\<close>

theorem repeated_address_counts:
  assumes "parse_arguments argv initial_globals = Inr g"
    and "c = CHR ''L'' \<or> c = CHR ''S''" and "sz \<le> 1" and "0 < N" and "N \<le> 2 ^ 31"
  shows "\<exists>hits misses evictions.
           main argv (replicate N (Scanned c a sz)) = (0, Some (hits, misses, evictions)) \<and>
           sint hits = int N - 1 \<and> sint misses = 1 \<and> sint evictions = 0"
proof -
  have "N - 1 < 2 ^ 31" using assms(4,5) by simp
  then have "sint (word_of_nat (N - 1) :: c_int) = int (N - 1)"
    by (rule sint_word_of_nat)
  then have "sint (word_of_nat (N - 1) :: c_int) = int N - 1"
    using assms(4) by (simp add: of_nat_diff)
  moreover have "sint (1 :: c_int) = 1" "sint (0 :: c_int) = 0" by simp_all
  ultimately show ?thesis
    using repeated_address_words [OF assms(1-4), of a] by blast
qed

theorem repeated_address_counts_witness:
  "\<exists>hits misses evictions.
     main [OptS 4, OptK 2, OptB 16, OptP ''FIFO'', OptT True]
       (replicate 3 (Scanned CHR ''L'' 64 1)) = (0, Some (hits, misses, evictions)) \<and>
     sint hits = 2 \<and> sint misses = 1 \<and> sint evictions = 0"
proof -
  have p: "parse_arguments [OptS 4, OptK 2, OptB 16, OptP ''FIFO'', OptT True] initial_globals
        = Inr (initial_globals\<lparr>S := 4, K := 2, B := 16, policy := Some FIFO, trace_fp := True,
                 B_temp := 4\<rparr>)"
    by code_simp
  have c: "CHR ''L'' = CHR ''L'' \<or> CHR ''L'' = CHR ''S''" by simp
  have le: "(1 :: c_ulong) \<le> 1" by simp
  have n: "(0 :: nat) < 3" "(3 :: nat) \<le> 2 ^ 31" by simp_all
  from repeated_address_counts [OF p c le n, of 64]
  show ?thesis by simp
qed

text \<open>
  Claim C6, as stated for every \<open>N\<close>, fails beyond the range of the 32-bit hit counter.
  After \<open>2^31 + 1\<close> Loads of the same address the counter has been incremented \<open>2^31\<close>
  times and holds the bit pattern \<open>0x80000000\<close>, which \<open>print_summary\<close> prints with \<open>%d\<close>
  as \<open>-2147483648\<close>, not as \<open>2147483648 = N - 1\<close>.
\<close>

theorem repeated_address_counts_counterexample:
  "main [OptS 1, OptK 1, OptB 1, OptP ''LRU'', OptT True]
     (replicate 2147483649 (Scanned CHR ''L'' 0 1)) = (0, Some (2147483648, 1, 0)) \<and>
   sint (2147483648 :: c_int) = - 2147483648 \<and>
   sint (2147483648 :: c_int) \<noteq> int 2147483649 - 1"
proof -
  have p: "parse_arguments [OptS 1, OptK 1, OptB 1, OptP ''LRU'', OptT True] initial_globals
        = Inr (initial_globals\<lparr>S := 1, K := 1, B := 1, policy := Some LRU, trace_fp := True\<rparr>)"
    by code_simp
  have c: "CHR ''L'' = CHR ''L'' \<or> CHR ''L'' = CHR ''S''" by simp
  have le: "(1 :: c_ulong) \<le> 1" by simp
  have n: "(0 :: nat) < 2147483649" by simp
  have w: "(word_of_nat (2147483649 - 1) :: c_int) = 2147483648" by simp
  have s: "sint (2147483648 :: c_int) = - 2147483648" by simp
  have "main [OptS 1, OptK 1, OptB 1, OptP ''LRU'', OptT True]
     (replicate 2147483649 (Scanned CHR ''L'' 0 1)) =
     (0, Some (word_of_nat (2147483649 - 1), 1, 0))"
    by (rule repeated_address_words [OF p c le n])
  then have "main [OptS 1, OptK 1, OptB 1, OptP ''LRU'', OptT True]
     (replicate 2147483649 (Scanned CHR ''L'' 0 1)) = (0, Some (2147483648, 1, 0))"
    by (simp only: w)
  moreover have "sint (2147483648 :: c_int) \<noteq> int 2147483649 - 1"
    by (simp only: s)
  ultimately show ?thesis using s by (intro conjI)
qed

section \<open>Modify records\<close>

lemma ls_loop_step:
  assumes "idx < bound"
  shows "ls_loop b address bound idx =
           (if idx = address \<or> idx mod b = 0 then [idx] else []) @
           ls_loop b address bound (idx + 1)"
  using assms by (subst ls_loop.simps) (simp only: if_True)

lemma ls_loop_stop:
  assumes "\<not> idx < bound"
  shows "ls_loop b address bound idx = []"
  using assms by (subst ls_loop.simps) (simp only: if_False)

lemma m_loop_step:
  assumes "idx < bound"
  shows "m_loop b address bound idx =
           (if idx = address \<or> idx mod b = 0 then [idx, idx] else []) @
           m_loop b address bound (idx + 1)"
  using assms by (subst m_loop.simps) (simp only: if_True)

lemma m_loop_stop:
  assumes "\<not> idx < bound"
  shows "m_loop b address bound idx = []"
  using assms by (subst m_loop.simps) (simp only: if_False)

lemma m_loop_doubles:
  "m_loop b address bound idx = concat (map (\<lambda>i. [i, i]) (ls_loop b address bound idx))"
proof (induction b address bound idx rule: ls_loop.induct)
  case (1 b address bound idx)
  show ?case
  proof (cases "idx < bound")
    case True
    show ?thesis
      unfolding ls_loop_step [OF True] m_loop_step [OF True] using "1.IH" [OF True] by simp
  next
    case False
    show ?thesis
      unfolding ls_loop_stop [OF False] m_loop_stop [OF False] by simp
  qed
qed

lemma record_accesses_modify:
  "record_accesses b CHR ''M'' a sz =
     concat (map (\<lambda>i. [i, i]) (record_accesses b CHR ''L'' a sz))"
  by (simp add: record_accesses_def m_loop_doubles)

lemma ls_loop_first:
  assumes "address < bound"
  shows "ls_loop b address bound address = address # ls_loop b address bound (address + 1)"
  using assms by (simp add: ls_loop_step)

lemma no_wrap_less:
  fixes a sz :: c_ulong
  assumes "1 < sz" and "unat a + unat sz < 2 ^ 64"
  shows "a < a + sz"
proof -
  have "unat (a + sz) = unat a + unat sz"
    using assms(2) by (simp add: unat_add_lem [THEN iffD1])
  moreover have "0 < unat sz"
    using assms(1) by (simp add: word_less_nat_alt)
  ultimately show ?thesis by (simp add: word_less_nat_alt)
qed

lemma record_accesses_load_first:
  assumes "sz \<le> 1 \<or> unat a + unat sz < 2 ^ 64"
  shows "\<exists>rest. record_accesses b CHR ''L'' a sz = a # rest"
proof (cases "1 < sz")
  case True
  with assms have "unat a + unat sz < 2 ^ 64" using leD by blast
  with True have "a < a + sz" by (rule no_wrap_less)
  then have "ls_loop (scast b) a (a + sz) a = a # ls_loop (scast b) a (a + sz) (a + 1)"
    by (rule ls_loop_first)
  then show ?thesis
    using True by (simp add: record_accesses_def)
next
  case False
  then show ?thesis by (simp add: record_accesses_def)
qed

lemma fold_doubled:
  "fold f (concat (map (\<lambda>i. [i, i]) xs)) s = fold (\<lambda>i s'. f i (f i s')) xs s"
  by (induction xs arbitrary: s) simp_all

lemma replay_record_modify:
  "replay_record CHR ''M'' a sz g =
     fold (\<lambda>idx g'. access_data (access_data g' idx) idx)
       (record_accesses (B g) CHR ''L'' a sz) g"
  by (simp add: replay_record_def record_accesses_modify fold_doubled)

text \<open>
  Claim C4, as the code has it. Replaying a Modify record runs two consecutive calls of
  \<open>access_data\<close> at each address that the line splitting selects, in order: the replay
  is the fold of the double call over the call list of the Load record, and the call
  list of the Modify record is that list with every address doubled. When the length is
  at most one, or the byte range does not wrap around (\<open>address + size < 2^64\<close>), the
  first selected address is the record's address, so the replay starts with two calls
  at \<open>address\<close> and goes on with the double calls at the remaining addresses. In every
  state that \<open>allocate_cache\<close> and earlier accesses can produce (so \<open>K \<ge> 1\<close>), the second
  of two consecutive calls at an address is a hit: the hit count goes up by one, the
  miss and eviction counts stay. When the line is not in the cache, the first call is a
  miss and not a hit, so the pair gives exactly one miss followed by one hit, never two
  misses.
\<close>

theorem modify_miss_then_hit:
  assumes "cache_ok g"
  shows "replay_record CHR ''M'' a sz g =
           fold (\<lambda>idx g'. access_data (access_data g' idx) idx)
             (record_accesses (B g) CHR ''L'' a sz) g \<and>
         record_accesses b CHR ''M'' a sz =
           concat (map (\<lambda>i. [i, i]) (record_accesses b CHR ''L'' a sz)) \<and>
         (sz \<le> 1 \<or> unat a + unat sz < 2 ^ 64 \<longrightarrow>
            (\<exists>rest. record_accesses (B g) CHR ''L'' a sz = a # rest \<and>
                    replay_record CHR ''M'' a sz g =
                      fold (\<lambda>idx g'. access_data (access_data g' idx) idx) rest
                        (access_data (access_data g a) a))) \<and>
         hit_count (access_data (access_data g idx) idx) = hit_count (access_data g idx) + 1 \<and>
         miss_count (access_data (access_data g idx) idx) = miss_count (access_data g idx) \<and>
         eviction_count (access_data (access_data g idx) idx) = eviction_count (access_data g idx) \<and>
         (\<not> line_present g idx \<longrightarrow>
            miss_count (access_data g idx) = miss_count g + 1 \<and>
            hit_count (access_data g idx) = hit_count g \<and>
            miss_count (access_data (access_data g idx) idx) = miss_count g + 1 \<and>
            hit_count (access_data (access_data g idx) idx) = hit_count g + 1) \<and>
         (\<not> line_present g a \<and> sz \<le> 1 \<longrightarrow>
            miss_count (replay_record CHR ''M'' a sz g) = miss_count g + 1 \<and>
            hit_count (replay_record CHR ''M'' a sz g) = hit_count g + 1)"
proof (intro conjI impI)
  show link: "replay_record CHR ''M'' a sz g =
           fold (\<lambda>idx g'. access_data (access_data g' idx) idx)
             (record_accesses (B g) CHR ''L'' a sz) g"
    by (rule replay_record_modify)
  show "record_accesses b CHR ''M'' a sz =
           concat (map (\<lambda>i. [i, i]) (record_accesses b CHR ''L'' a sz))"
    by (rule record_accesses_modify)
  show "\<exists>rest. record_accesses (B g) CHR ''L'' a sz = a # rest \<and>
                replay_record CHR ''M'' a sz g =
                  fold (\<lambda>idx g'. access_data (access_data g' idx) idx) rest
                    (access_data (access_data g a) a)"
    if nowrap: "sz \<le> 1 \<or> unat a + unat sz < 2 ^ 64"
  proof -
    obtain rest where rest: "record_accesses (B g) CHR ''L'' a sz = a # rest"
      using record_accesses_load_first [OF nowrap, of "B g"] by blast
    then have "replay_record CHR ''M'' a sz g =
                 fold (\<lambda>idx g'. access_data (access_data g' idx) idx) rest
                   (access_data (access_data g a) a)"
      by (simp add: link)
    with rest show ?thesis by blast
  qed
  have ok1: "cache_ok (access_data g i)" for i
    by (rule access_data_cache_ok [OF assms])
  have pr1: "line_present (access_data g i) i" for i
    by (rule access_data_then_present [OF assms])
  show h2: "hit_count (access_data (access_data g idx) idx) = hit_count (access_data g idx) + 1"
    by (rule access_data_hit(1) [OF ok1 pr1])
  show m2: "miss_count (access_data (access_data g idx) idx) = miss_count (access_data g idx)"
    by (rule access_data_hit(2) [OF ok1 pr1])
  show "eviction_count (access_data (access_data g idx) idx) = eviction_count (access_data g idx)"
    by (rule access_data_hit(3) [OF ok1 pr1])
  show m1: "miss_count (access_data g idx) = miss_count g + 1" if "\<not> line_present g idx"
    by (rule access_data_miss(1) [OF assms that])
  show h1: "hit_count (access_data g idx) = hit_count g" if "\<not> line_present g idx"
    by (rule access_data_miss(2) [OF assms that])
  show "miss_count (access_data (access_data g idx) idx) = miss_count g + 1"
    if "\<not> line_present g idx"
    using m2 m1 [OF that] by simp
  show "hit_count (access_data (access_data g idx) idx) = hit_count g + 1"
    if "\<not> line_present g idx"
    using h2 h1 [OF that] by simp
  have single: "replay_record CHR ''M'' a sz g = access_data (access_data g a) a" if "sz \<le> 1"
    using leD [OF that] by (simp add: replay_record_def record_accesses_def)
  show "miss_count (replay_record CHR ''M'' a sz g) = miss_count g + 1"
    if "\<not> line_present g a \<and> sz \<le> 1"
    using that access_data_hit(2) [OF ok1 pr1, of a] access_data_miss(1) [OF assms, of a]
    by (simp add: single)
  show "hit_count (replay_record CHR ''M'' a sz g) = hit_count g + 1"
    if "\<not> line_present g a \<and> sz \<le> 1"
    using that access_data_hit(1) [OF ok1 pr1, of a] access_data_miss(2) [OF assms, of a]
    by (simp add: single)
qed

theorem modify_miss_then_hit_witness:
  "replay_record CHR ''M'' 8 8 (full_set_state FIFO) =
     fold (\<lambda>idx g'. access_data (access_data g' idx) idx)
       (record_accesses 1 CHR ''L'' 8 8) (full_set_state FIFO) \<and>
   (\<exists>rest. record_accesses 1 CHR ''L'' 8 8 = 8 # rest \<and>
       replay_record CHR ''M'' 8 8 (full_set_state FIFO) =
         fold (\<lambda>idx g'. access_data (access_data g' idx) idx) rest
           (access_data (access_data (full_set_state FIFO) 8) 8)) \<and>
   miss_count (access_data (full_set_state FIFO) 8) = 1 \<and>
   hit_count (access_data (full_set_state FIFO) 8) = 0 \<and>
   miss_count (access_data (access_data (full_set_state FIFO) 8) 8) = 1 \<and>
   hit_count (access_data (access_data (full_set_state FIFO) 8) 8) = 1 \<and>
   miss_count (replay_record CHR ''M'' 40 1 (full_set_state FIFO)) = 1 \<and>
   hit_count (replay_record CHR ''M'' 40 1 (full_set_state FIFO)) = 1"
proof -
  have ok: "cache_ok (full_set_state FIFO)"
    by (simp add: cache_ok_def full_set_state_def initial_globals_def)
  have "\<forall>j<3. tagBits (cache (full_set_state FIFO) ! 0 ! j) \<noteq> 40"
    and "\<forall>j<3. tagBits (cache (full_set_state FIFO) ! 0 ! j) \<noteq> 8"
    by (simp_all add: full_set_state_simps numeral_3_eq_3 less_Suc_eq)
  then have absent: "\<not> line_present (full_set_state FIFO) 40"
    "\<not> line_present (full_set_state FIFO) 8"
    by (auto simp: line_present_def full_set_state_simps)
  have zero: "miss_count (full_set_state FIFO) = 0" "hit_count (full_set_state FIFO) = 0"
    "B (full_set_state FIFO) = 1"
    by (simp_all add: full_set_state_def initial_globals_def)
  have le: "(1 :: c_ulong) \<le> 1" by simp
  have nowrap: "unat (8 :: c_ulong) + unat (8 :: c_ulong) < 2 ^ 64" by simp
  note inst = modify_miss_then_hit [OF ok, of 40 1 1 40]
  note inst8 = modify_miss_then_hit [OF ok, of 8 8 1 8]
  from inst8 have "replay_record CHR ''M'' 8 8 (full_set_state FIFO) =
     fold (\<lambda>idx g'. access_data (access_data g' idx) idx)
       (record_accesses (B (full_set_state FIFO)) CHR ''L'' 8 8) (full_set_state FIFO)"
    by blast
  moreover from inst8 nowrap
  have "\<exists>rest. record_accesses (B (full_set_state FIFO)) CHR ''L'' 8 8 = 8 # rest \<and>
       replay_record CHR ''M'' 8 8 (full_set_state FIFO) =
         fold (\<lambda>idx g'. access_data (access_data g' idx) idx) rest
           (access_data (access_data (full_set_state FIFO) 8) 8)"
    by blast
  moreover from inst8 absent(2)
  have "miss_count (access_data (full_set_state FIFO) 8) = miss_count (full_set_state FIFO) + 1 \<and>
        hit_count (access_data (full_set_state FIFO) 8) = hit_count (full_set_state FIFO) \<and>
        miss_count (access_data (access_data (full_set_state FIFO) 8) 8) =
          miss_count (full_set_state FIFO) + 1 \<and>
        hit_count (access_data (access_data (full_set_state FIFO) 8) 8) =
          hit_count (full_set_state FIFO) + 1"
    by blast
  moreover from inst absent(1) le
  have "miss_count (replay_record CHR ''M'' 40 1 (full_set_state FIFO)) =
     miss_count (full_set_state FIFO) + 1 \<and>
     hit_count (replay_record CHR ''M'' 40 1 (full_set_state FIFO)) =
     hit_count (full_set_state FIFO) + 1" by blast
  ultimately show ?thesis by (simp only: zero) simp
qed

text \<open>
  Claim C4, as stated, fails when the byte range of the record wraps around. For the
  Modify record at address \<open>2^64 - 1\<close> with length 2, \<open>address + size\<close> is 1, the loop
  does not run, and the record calls \<open>access_data\<close> not at all: the line is absent
  before and after, and there is neither a miss nor a hit.
\<close>

theorem modify_miss_then_hit_counterexample:
  "\<not> line_present (two_way LRU) 18446744073709551615 \<and>
   record_accesses (B (two_way LRU)) CHR ''M'' 18446744073709551615 2 = [] \<and>
   miss_count (replay_record CHR ''M'' 18446744073709551615 2 (two_way LRU)) = 0 \<and>
   hit_count (replay_record CHR ''M'' 18446744073709551615 2 (two_way LRU)) = 0 \<and>
   \<not> line_present (replay_record CHR ''M'' 18446744073709551615 2 (two_way LRU))
         18446744073709551615"
proof -
  have calls: "record_accesses (B (two_way LRU)) CHR ''M'' 18446744073709551615 2 = []"
    by code_simp
  have k: "nat (sint (K (two_way LRU))) = 2" "unat (num_set_of (two_way LRU) a) = 0"
    "cache (two_way LRU) = [[empty_block, empty_block]]" for a
    by (simp_all add: two_way_def allocate_cache_def initial_globals_def num_set_of_def
        numeral_2_eq_2)
  have "\<forall>j<2. validBits (cache (two_way LRU) ! 0 ! j) = 0"
    by (simp add: k empty_block_def numeral_2_eq_2 less_Suc_eq)
  then have absent: "\<not> line_present (two_way LRU) 18446744073709551615"
    by (auto simp: line_present_def k)
  have zero: "miss_count (two_way LRU) = 0" "hit_count (two_way LRU) = 0"
    by (simp_all add: two_way_def allocate_cache_def initial_globals_def)
  show ?thesis
    using absent zero by (simp add: replay_record_def calls)
qed

section \<open>Line splitting of Load and Store records\<close>

lemma unat_succ:
  fixes idx bound :: c_ulong
  assumes "idx < bound"
  shows "unat (idx + 1) = Suc (unat idx)"
proof -
  have "unat idx < unat bound"
    using assms by (simp add: word_less_nat_alt)
  moreover have "unat bound < 2 ^ 64"
    using unsigned_less [of bound, where 'a = nat] by simp
  ultimately have "unat idx + unat (1 :: c_ulong) < 2 ^ LENGTH(64)"
    by simp
  then show ?thesis
    by (simp add: unat_add_lem [THEN iffD1])
qed

lemma ls_loop_filter:
  "ls_loop b address bound idx =
     filter (\<lambda>i. i = address \<or> i mod b = 0) (map word_of_nat [unat idx..<unat bound])"
proof (induction b address bound idx rule: ls_loop.induct)
  case (1 b address bound idx)
  show ?case
  proof (cases "idx < bound")
    case True
    then have lt: "unat idx < unat bound" by (simp add: word_less_nat_alt)
    have "[unat idx..<unat bound] = unat idx # [unat (idx + 1)..<unat bound]"
      using lt by (simp add: upt_conv_Cons unat_succ [OF True])
    then show ?thesis
      unfolding ls_loop_step [OF True] using "1.IH" [OF True] by simp
  next
    case False
    then have "unat bound \<le> unat idx" by (simp add: word_less_nat_alt)
    then show ?thesis
      unfolding ls_loop_stop [OF False] by simp
  qed
qed

lemma filter_multiples:
  fixes u m d :: nat
  assumes "u mod d = 0" and "0 < m" and "m \<le> d"
  shows "filter (\<lambda>i. i mod d = 0) [u..<u + m] = [u]"
proof -
  have "i mod d \<noteq> 0" if "i \<in> set [Suc u..<u + m]" for i
  proof -
    from that have "u < i" "i < u + d" using assms(3) by auto
    then obtain r where r: "i = u + r" "0 < r" "r < d"
      by (metis add_diff_inverse_nat less_imp_add_positive nat_add_left_cancel_less not_less_iff_gr_or_eq)
    have "(u + r) mod d = r mod d"
      using assms(1) by (metis add.commute add_cancel_right_left mod_add_left_eq mod_mod_trivial)
    with r show ?thesis by simp
  qed
  then have "filter (\<lambda>i. i mod d = 0) [Suc u..<u + m] = []"
    by (simp add: filter_empty_conv)
  moreover have "[u..<u + m] = u # [Suc u..<u + m]"
    using assms(2) by (simp add: upt_conv_Cons)
  ultimately show ?thesis using assms(1) by simp
qed

lemma aligned_filter:
  fixes a bw :: c_ulong
  assumes al: "a mod bw = 0" and hi: "h \<le> 2 ^ 64" and lo: "unat a \<le> l"
  shows "filter (\<lambda>i. i = a \<or> i mod bw = 0) (map word_of_nat [l..<h]) =
         map word_of_nat (filter (\<lambda>i. i mod unat bw = 0) [l..<h])"
proof -
  have eq: "(word_of_nat i = a \<or> (word_of_nat i :: c_ulong) mod bw = 0) = (i mod unat bw = 0)"
    if "i \<in> set [l..<h]" for i
  proof -
    from that hi have "i < 2 ^ 64" by simp
    then have u: "unat (word_of_nat i :: c_ulong) = i"
      by (simp add: unat_of_nat)
    have m: "((word_of_nat i :: c_ulong) mod bw = 0) = (i mod unat bw = 0)"
      using u by (metis unat_eq_zero unat_mod)
    have "i mod unat bw = 0" if "word_of_nat i = a"
      using that al m by simp
    with m show ?thesis by auto
  qed
  have "filter (\<lambda>i. word_of_nat i = a \<or> (word_of_nat i :: c_ulong) mod bw = 0) [l..<h] =
        filter (\<lambda>i. i mod unat bw = 0) [l..<h]"
    by (rule filter_cong [OF refl]) (rule eq)
  then show ?thesis
    by (simp add: filter_map comp_def)
qed


lemma record_accesses_load_store:
  assumes "c = CHR ''L'' \<or> c = CHR ''S''" and "n \<le> 1 \<or> unat a + unat n < 2 ^ 64"
  shows "record_accesses b c a n =
           (if n \<le> 1 then [a]
            else filter (\<lambda>idx. idx = a \<or> idx mod scast b = 0)
                   (map word_of_nat [unat a..<unat a + unat n]))"
proof -
  have big: "record_accesses b c a n =
      filter (\<lambda>idx. idx = a \<or> idx mod scast b = 0) (map word_of_nat [unat a..<unat a + unat n])"
    if long: "1 < n"
  proof -
    have "\<not> n \<le> 1" using long by (simp only: not_le)
    with assms(2) have "unat a + unat n < 2 ^ 64" by blast
    then have "unat (a + n) = unat a + unat n"
      by (simp add: unat_add_lem [THEN iffD1])
    then show ?thesis
      using assms(1) long by (auto simp: record_accesses_def ls_loop_filter)
  qed
  have small: "record_accesses b c a n = [a]" if "\<not> 1 < n"
    using assms(1) that by (auto simp: record_accesses_def)
  show ?thesis
  proof (cases "1 < n")
    case True
    then have "\<not> n \<le> 1" by (simp only: not_le)
    with big [OF True] show ?thesis by simp
  next
    case False
    then have "n \<le> 1" by (simp only: not_less)
    with small [OF False] show ?thesis by simp
  qed
qed

lemma record_accesses_aligned:
  assumes c: "c = CHR ''L'' \<or> c = CHR ''S''"
    and nowrap: "n \<le> 1 \<or> unat a + unat n < 2 ^ 64"
    and b: "0 <s b" and al: "a mod scast b = 0"
  shows "n = 2 * scast b \<Longrightarrow> record_accesses b c a n = [a, a + scast b]"
    and "n = scast b div 2 \<Longrightarrow> record_accesses b c a n = [a]"
proof -
  let ?bw = "scast b :: c_ulong"
  let ?ua = "unat a" and ?ub = "unat ?bw"
  have pos: "0 < sint b" using b by (simp add: word_sless_alt)
  then have ub: "?ub = nat (sint b)" by (simp add: unat_scast_nonneg)
  with pos have ub1: "0 < ?ub" by simp
  have "unat (a mod ?bw) = 0" using al by simp
  then have ua: "?ua mod ?ub = 0" by (simp add: unat_mod)
  have flt: "filter (\<lambda>idx. idx = a \<or> idx mod ?bw = 0) (map word_of_nat [?ua..<?ua + m]) =
             map word_of_nat (filter (\<lambda>i. i mod ?ub = 0) [?ua..<?ua + m])"
    if "?ua + m \<le> 2 ^ 64" for m
    using al that by (intro aligned_filter) simp_all
  show "record_accesses b c a n = [a, a + ?bw]" if n: "n = 2 * ?bw"
  proof -
    have "sint b < 2 ^ 31" using sint_lt [of b] by simp
    then have "?ub < 2 ^ 31" using ub pos by simp
    then have "unat (2 :: c_ulong) * ?ub < 2 ^ LENGTH(64)" by simp
    then have "unat (2 * ?bw) = unat (2 :: c_ulong) * ?ub"
      by (simp only: unat_mult_lem [THEN iffD1])
    then have un: "unat n = ?ub + ?ub" using n by simp
    then have big: "\<not> n \<le> 1" using ub1 by (simp add: word_le_nat_alt)
    have split: "[?ua..<(?ua + ?ub) + ?ub] = [?ua..<?ua + ?ub] @ [?ua + ?ub..<(?ua + ?ub) + ?ub]"
      by (rule upt_add_eq_append) simp
    have f1: "filter (\<lambda>i. i mod ?ub = 0) [?ua..<?ua + ?ub] = [?ua]"
      using ua ub1 by (rule filter_multiples) simp
    have "(?ua + ?ub) mod ?ub = 0" using ua by simp
    then have f2: "filter (\<lambda>i. i mod ?ub = 0) [?ua + ?ub..<(?ua + ?ub) + ?ub] = [?ua + ?ub]"
      using ub1 by (rule filter_multiples) simp
    have "?ua + unat n = (?ua + ?ub) + ?ub" by (simp only: un add.assoc)
    then have "filter (\<lambda>i. i mod ?ub = 0) [?ua..<?ua + unat n] = [?ua, ?ua + ?ub]"
      by (simp only: split filter_append f1 f2 append.simps)
    moreover have "?ua + unat n < 2 ^ 64" using nowrap big by blast
    then have "?ua + unat n \<le> 2 ^ 64" by (rule less_imp_le)
    ultimately show ?thesis
      using big by (simp add: record_accesses_load_store [OF c nowrap] flt)
  qed
  show "record_accesses b c a n = [a]" if n: "n = ?bw div 2"
  proof (cases "n \<le> 1")
    case True
    then show ?thesis by (simp add: record_accesses_load_store [OF c nowrap])
  next
    case False
    have un: "unat n = ?ub div 2" using n by (simp add: unat_div)
    from False have "1 < unat n" by (simp add: word_le_nat_alt not_le)
    then have "0 < unat n" and "unat n \<le> ?ub" using un by simp_all
    with ua have "filter (\<lambda>i. i mod ?ub = 0) [?ua..<?ua + unat n] = [?ua]"
      by (rule filter_multiples)
    moreover have "?ua + unat n < 2 ^ 64" using nowrap False by blast
    then have "?ua + unat n \<le> 2 ^ 64" by (rule less_imp_le)
    ultimately show ?thesis
      using False by (simp add: record_accesses_load_store [OF c nowrap] flt)
  qed
qed

text \<open>
  Claim C5, as the code has it. For a Load or Store record of length 0 or 1 the driver
  calls \<open>access_data\<close> exactly once, at \<open>address\<close>. For a record of length at least 2
  whose byte range does not wrap around (\<open>address + size < 2^64\<close>) it calls
  \<open>access_data\<close> exactly once, in ascending order, for each \<open>idx\<close> in
  \<open>[address, address + size)\<close> that is \<open>address\<close> or a multiple of \<open>B\<close>. For a positive
  \<open>B\<close> and a \<open>B\<close>-aligned address, a length of \<open>2 * B\<close> gives exactly the two calls at
  \<open>address\<close> and \<open>address + B\<close>, and a length of \<open>B / 2\<close> gives exactly one call.
  \<open>replay_record\<close> runs \<open>access_data\<close> over this call list.
\<close>

theorem load_store_line_splitting:
  assumes "c = CHR ''L'' \<or> c = CHR ''S''" and "n \<le> 1 \<or> unat a + unat n < 2 ^ 64"
  shows "record_accesses b c a n =
           (if n \<le> 1 then [a]
            else filter (\<lambda>idx. idx = a \<or> idx mod scast b = 0)
                   (map word_of_nat [unat a..<unat a + unat n])) \<and>
         (0 <s b \<and> a mod scast b = 0 \<and> n = 2 * scast b \<longrightarrow>
            record_accesses b c a n = [a, a + scast b]) \<and>
         (0 <s b \<and> a mod scast b = 0 \<and> n = scast b div 2 \<longrightarrow>
            record_accesses b c a n = [a]) \<and>
         replay_record c a n g =
           fold (\<lambda>idx g'. access_data g' idx) (record_accesses (B g) c a n) g"
  using record_accesses_load_store [OF assms] record_accesses_aligned [OF assms]
  by (simp add: replay_record_def)

theorem load_store_line_splitting_witness:
  "record_accesses 16 CHR ''L'' 32 32 = [32, 48] \<and>
   record_accesses 16 CHR ''L'' 32 32 =
     filter (\<lambda>idx. idx = 32 \<or> idx mod 16 = 0) (map word_of_nat [32..<64]) \<and>
   record_accesses 16 CHR ''S'' 32 8 = [32] \<and>
   record_accesses 16 CHR ''L'' 18446744073709551615 1 = [18446744073709551615]"
proof -
  have nowrap: "(32 :: c_ulong) \<le> 1 \<or> unat (32 :: c_ulong) + unat (32 :: c_ulong) < 2 ^ 64"
    by simp
  have nowrap8: "(8 :: c_ulong) \<le> 1 \<or> unat (32 :: c_ulong) + unat (8 :: c_ulong) < 2 ^ 64"
    by simp
  have top: "(1 :: c_ulong) \<le> 1 \<or>
             unat (18446744073709551615 :: c_ulong) + unat (1 :: c_ulong) < 2 ^ 64"
    by simp
  have c: "CHR ''L'' = CHR ''L'' \<or> CHR ''L'' = CHR ''S''" by simp
  have c': "CHR ''S'' = CHR ''L'' \<or> CHR ''S'' = CHR ''S''" by simp
  have hyp: "0 <s (16 :: c_int) \<and> (32 :: c_ulong) mod scast (16 :: c_int) = 0 \<and>
             (32 :: c_ulong) = 2 * scast (16 :: c_int)"
    by (simp add: word_sless_alt word_mod_def)
  have hyp8: "0 <s (16 :: c_int) \<and> (32 :: c_ulong) mod scast (16 :: c_int) = 0 \<and>
             (8 :: c_ulong) = scast (16 :: c_int) div 2"
    by (simp add: word_sless_alt word_mod_def word_div_def)
  have n: "\<not> (32 :: c_ulong) \<le> 1" by (simp add: word_le_nat_alt)
  note inst = load_store_line_splitting [OF c nowrap, where b = 16 and g = initial_globals]
  note inst8 = load_store_line_splitting [OF c' nowrap8, where b = 16 and g = initial_globals]
  note inst1 = load_store_line_splitting [OF c top, where b = 16 and g = initial_globals]
  have le: "(1 :: c_ulong) \<le> 1" by simp
  from inst1 have "record_accesses 16 CHR ''L'' 18446744073709551615 1 =
           (if (1 :: c_ulong) \<le> 1 then [18446744073709551615]
            else filter (\<lambda>idx. idx = 18446744073709551615 \<or> idx mod scast (16 :: c_int) = 0)
                   (map word_of_nat [unat (18446744073709551615 :: c_ulong)..<
                      unat (18446744073709551615 :: c_ulong) + unat (1 :: c_ulong)]))"
    by blast
  then have last: "record_accesses 16 CHR ''L'' 18446744073709551615 1 = [18446744073709551615]"
    by (simp only: le if_True)
  from inst hyp have "record_accesses 16 CHR ''L'' 32 32 = [32, 32 + scast (16 :: c_int)]"
    by blast
  then have two: "record_accesses 16 CHR ''L'' 32 32 = [32, 48]" by simp
  from inst8 hyp8 have one: "record_accesses 16 CHR ''S'' 32 8 = [32]"
    by blast
  from inst have "record_accesses 16 CHR ''L'' 32 32 =
           (if (32 :: c_ulong) \<le> 1 then [32]
            else filter (\<lambda>idx. idx = 32 \<or> idx mod scast (16 :: c_int) = 0)
                   (map word_of_nat [unat (32 :: c_ulong)..<unat (32 :: c_ulong) + unat (32 :: c_ulong)]))"
    by blast
  then have "record_accesses 16 CHR ''L'' 32 32 =
     filter (\<lambda>idx. idx = 32 \<or> idx mod 16 = 0) (map word_of_nat [32..<64])"
    by (simp only: n if_False) simp
  with two one last show ?thesis by simp
qed

text \<open>
  Claim C5, as stated, fails in three ways. A length of \<open>B / 2\<close> gives two calls when the
  access crosses a line boundary (\<open>B = 4\<close>, address 3, length 2). A length of 0 gives one
  call, although no address lies in \<open>[address, address)\<close>. When \<open>address + size\<close> wraps
  around, the loop does not run and there is no call, although \<open>address\<close> lies in the
  interval.
\<close>

theorem load_store_line_splitting_counterexample:
  "record_accesses 4 CHR ''L'' 3 2 = [3, 4] \<and>
   record_accesses 4 CHR ''L'' 0 0 = [0] \<and>
   record_accesses 1 CHR ''S'' 18446744073709551615 2 = []"
  by code_simp

section \<open>Which line an access evicts\<close>

lemma set_view_access:
  assumes ok: "cache_ok g" and pol: "policy g = Some p"
  shows "set_view (unat (num_set_of g addr)) (access_data g addr) =
           set_access p (nat (sint (K g))) (num_tag_of g addr)
             (set_view (unat (num_set_of g addr)) g)"
proof -
  let ?n = "unat (num_set_of g addr)" and ?k = "nat (sint (K g))"
  let ?sc = "cache g ! ?n" and ?t = "num_tag_of g addr"
  have n: "?n < length (cache g)" by (rule num_set_in_range [OF ok])
  show ?thesis
  proof (cases "find_tag ?sc ?k ?t")
    case (Some idx)
    show ?thesis
      using pol n Some
      by (cases p)
        (simp_all add: set_view_def set_access_def access_data_lru_hit [OF _ Some]
          access_data_fifo_hit [OF _ Some])
  next
    case None
    show ?thesis
    proof (cases "find_inv ?sc ?k")
      case inv: None
      show ?thesis
        using pol n None inv
        by (cases p)
          (simp_all add: set_view_def set_access_def access_data_lru_evict [OF _ None inv]
            access_data_fifo_evict [OF _ None inv])
    next
      case inv: (Some i)
      show ?thesis
        using pol n None inv
        by (cases p)
          (simp_all add: set_view_def set_access_def access_data_lru_fill [OF _ None inv]
            access_data_fifo_fill [OF _ None inv])
    qed
  qed
qed

lemma replay_loads:
  "replay_trace (loads as) g = fold (\<lambda>a g'. access_data g' a) as g"
proof (induction as arbitrary: g)
  case Nil
  then show ?case by (simp add: loads_def)
next
  case (Cons a as)
  have "replay_record CHR ''L'' a 1 g = access_data g a"
    by (rule replay_record_single) simp_all
  with Cons show ?case by (simp add: loads_def)
qed

lemma set_view_fold:
  assumes "cache_ok g" and "policy g = Some p"
    and "\<forall>x\<in>set as. unat (num_set_of g x) = n"
  shows "set_view n (fold (\<lambda>a g'. access_data g' a) as g) =
           fold (\<lambda>a. set_access p (nat (sint (K g))) (num_tag_of g a)) as (set_view n g)"
  using assms
proof (induction as arbitrary: g)
  case Nil
  then show ?case by simp
next
  case (Cons a as)
  let ?g1 = "access_data g a"
  have ok1: "cache_ok ?g1" by (rule access_data_cache_ok [OF Cons.prems(1)])
  have pol1: "policy ?g1 = Some p" using Cons.prems(2) by (simp add: access_data_frame)
  have sets1: "\<forall>x\<in>set as. unat (num_set_of ?g1 x) = n"
    using Cons.prems(3) by (simp add: access_data_num)
  have n: "unat (num_set_of g a) = n" using Cons.prems(3) by simp
  have "set_view n ?g1 = set_access p (nat (sint (K g))) (num_tag_of g a) (set_view n g)"
    using set_view_access [OF Cons.prems(1,2), of a] by (simp add: n)
  then show ?case
    using Cons.IH [OF ok1 pol1 sets1] by (simp add: access_data_frame access_data_num)
qed

lemma upt_3: "[0..<3] = [0, 1, 2]"
  by (simp add: numeral_3_eq_3)

lemma upt_2: "[0..<2] = [0, 1]"
  by (simp add: numeral_2_eq_2)

lemma replicate_3: "replicate 3 x = [x, x, x]"
  by (simp add: numeral_3_eq_3)

lemma replicate_2: "replicate 2 x = [x, x]"
  by (simp add: numeral_2_eq_2)

lemma three_lines_lru:
  assumes "distinct [tA, tB, tC, tD]"
  shows "fold (set_access LRU 3) [tA, tB, tC, tA]
           (replicate 3 empty_block, 1, 1, 0) =
         ([\<lparr>tagBits = tA, countBlock = 5, validBits = 1\<rparr>,
           \<lparr>tagBits = tB, countBlock = 3, validBits = 1\<rparr>,
           \<lparr>tagBits = tC, countBlock = 4, validBits = 1\<rparr>], 5, 1, 0)"
    and "fold (set_access LRU 3) [tA, tB, tC, tA, tD]
           (replicate 3 empty_block, 1, 1, 0) =
         ([\<lparr>tagBits = tA, countBlock = 5, validBits = 1\<rparr>,
           \<lparr>tagBits = tD, countBlock = 6, validBits = 1\<rparr>,
           \<lparr>tagBits = tC, countBlock = 4, validBits = 1\<rparr>], 6, 1, 1)"
  using assms
  by (auto simp: set_access_def find_tag_def find_inv_def lru_victim_def upt_3
      empty_block_def replicate_3 word_sless_alt)

lemma three_lines_fifo:
  assumes "distinct [tA, tB, tC, tD]"
  shows "fold (set_access FIFO 3) [tA, tB, tC, tA]
           (replicate 3 empty_block, 1, 1, 0) =
         ([\<lparr>tagBits = tA, countBlock = 2, validBits = 1\<rparr>,
           \<lparr>tagBits = tB, countBlock = 3, validBits = 1\<rparr>,
           \<lparr>tagBits = tC, countBlock = 4, validBits = 1\<rparr>], 1, 4, 0)"
    and "fold (set_access FIFO 3) [tA, tB, tC, tA, tD]
           (replicate 3 empty_block, 1, 1, 0) =
         ([\<lparr>tagBits = tD, countBlock = 5, validBits = 1\<rparr>,
           \<lparr>tagBits = tB, countBlock = 3, validBits = 1\<rparr>,
           \<lparr>tagBits = tC, countBlock = 4, validBits = 1\<rparr>], 1, 5, 1)"
  using assms
  by (auto simp: set_access_def find_tag_def find_inv_def fifo_victim_def upt_3
      empty_block_def replicate_3 word_sless_alt)

lemma two_lines_lru:
  assumes "distinct [tA, tB, tC, tD]"
  shows "fold (set_access LRU 2) [tA, tB, tC, tA]
           (replicate 2 empty_block, 1, 1, 0) =
         ([\<lparr>tagBits = tC, countBlock = 4, validBits = 1\<rparr>,
           \<lparr>tagBits = tA, countBlock = 5, validBits = 1\<rparr>], 5, 1, 2)"
    and "fold (set_access LRU 2) [tA, tB, tC, tA, tD]
           (replicate 2 empty_block, 1, 1, 0) =
         ([\<lparr>tagBits = tD, countBlock = 6, validBits = 1\<rparr>,
           \<lparr>tagBits = tA, countBlock = 5, validBits = 1\<rparr>], 6, 1, 3)"
  using assms
  by (auto simp: set_access_def find_tag_def find_inv_def lru_victim_def upt_2
      empty_block_def replicate_2 word_sless_alt)

lemma two_lines_fifo:
  assumes "distinct [tA, tB, tC, tD]"
  shows "fold (set_access FIFO 2) [tA, tB, tC, tA]
           (replicate 2 empty_block, 1, 1, 0) =
         ([\<lparr>tagBits = tC, countBlock = 4, validBits = 1\<rparr>,
           \<lparr>tagBits = tA, countBlock = 5, validBits = 1\<rparr>], 1, 5, 2)"
    and "fold (set_access FIFO 2) [tA, tB, tC, tA, tD]
           (replicate 2 empty_block, 1, 1, 0) =
         ([\<lparr>tagBits = tD, countBlock = 6, validBits = 1\<rparr>,
           \<lparr>tagBits = tA, countBlock = 5, validBits = 1\<rparr>], 1, 6, 3)"
  using assms
  by (auto simp: set_access_def find_tag_def find_inv_def fifo_victim_def upt_2
      empty_block_def replicate_2 word_sless_alt)

lemma run_view:
  assumes acc: "parse_arguments argv initial_globals = Inr g"
    and pol: "policy g = Some p"
    and sets: "\<forall>x\<in>set as. unat (num_set_of (allocate_cache g) x) = n"
    and "as \<noteq> []"
  shows "set_view n (replay_trace (loads as) (allocate_cache g)) =
           fold (set_access p (nat (sint (K g)))) (map (num_tag_of g) as)
             (replicate (nat (sint (K g))) empty_block, 1, 1, 0)"
proof -
  note a = parse_arguments_accepts [OF acc]
  let ?g0 = "allocate_cache g"
  have ok0: "cache_ok ?g0" by (rule allocate_cache_ok [OF a(1,2,4)])
  have pol0: "policy ?g0 = Some p" using pol by (simp add: allocate_cache_frame)
  obtain x where "x \<in> set as" using \<open>as \<noteq> []\<close> by (cases as) auto
  with sets have "unat (num_set_of ?g0 x) = n" by simp
  with num_set_in_range [OF ok0, of x] have "n < nat (sint (S g))"
    by (simp add: allocate_cache_def)
  then have view0: "set_view n ?g0 = (replicate (nat (sint (K g))) empty_block, 1, 1, 0)"
    using a(9,10,14) by (simp add: set_view_def allocate_cache_def)
  have tag0: "num_tag_of ?g0 = num_tag_of g"
    by (rule ext) (simp add: num_tag_of_def allocate_cache_frame)
  show ?thesis
    using set_view_fold [OF ok0 pol0 sets]
    by (simp add: replay_loads view0 tag0 allocate_cache_frame fold_map comp_def)
qed

lemma set_view_tags: "set_tags g n = map tagBits (fst (set_view n g))"
  by (simp add: set_tags_def set_view_def)

lemma set_view_evictions: "eviction_count g = snd (snd (snd (set_view n g)))"
  by (simp add: set_view_def)

text \<open>
  Claim C3, as the code has it. Take an accepted command line and four addresses of one
  set with distinct tags \<open>A\<close>, \<open>B\<close>, \<open>C\<close>, \<open>D\<close>, accessed from the empty cache in the order
  \<open>A\<close>, \<open>B\<close>, \<open>C\<close>, \<open>A\<close>, \<open>D\<close>. With \<open>K = 3\<close> the set holds \<open>A\<close>, \<open>B\<close>, \<open>C\<close> in slots 0, 1, 2
  before the last access, which is the only eviction: under LRU it replaces \<open>B\<close> and
  keeps \<open>A\<close>; under FIFO it replaces \<open>A\<close> and keeps \<open>B\<close>. With \<open>K = 2\<close> the set holds \<open>C\<close> and
  \<open>A\<close> before the last access (the third access evicted \<open>A\<close>, the fourth evicted \<open>B\<close>),
  and under either policy the last access replaces \<open>C\<close>.
\<close>

theorem eviction_after_reaccess:
  assumes acc: "parse_arguments argv initial_globals = Inr g"
    and sets: "\<forall>x\<in>set [a, b, c, d]. unat (num_set_of (allocate_cache g) x) = n"
    and tags: "distinct [num_tag_of g a, num_tag_of g b, num_tag_of g c, num_tag_of g d]"
  shows "(K g = 3 \<and> policy g = Some LRU \<longrightarrow>
            set_tags (replay_trace (loads [a, b, c, a]) (allocate_cache g)) n =
              [num_tag_of g a, num_tag_of g b, num_tag_of g c] \<and>
            set_tags (replay_trace (loads [a, b, c, a, d]) (allocate_cache g)) n =
              [num_tag_of g a, num_tag_of g d, num_tag_of g c] \<and>
            eviction_count (replay_trace (loads [a, b, c, a]) (allocate_cache g)) = 0 \<and>
            eviction_count (replay_trace (loads [a, b, c, a, d]) (allocate_cache g)) = 1) \<and>
         (K g = 3 \<and> policy g = Some FIFO \<longrightarrow>
            set_tags (replay_trace (loads [a, b, c, a]) (allocate_cache g)) n =
              [num_tag_of g a, num_tag_of g b, num_tag_of g c] \<and>
            set_tags (replay_trace (loads [a, b, c, a, d]) (allocate_cache g)) n =
              [num_tag_of g d, num_tag_of g b, num_tag_of g c] \<and>
            eviction_count (replay_trace (loads [a, b, c, a]) (allocate_cache g)) = 0 \<and>
            eviction_count (replay_trace (loads [a, b, c, a, d]) (allocate_cache g)) = 1) \<and>
         (K g = 2 \<longrightarrow>
            set_tags (replay_trace (loads [a, b, c, a]) (allocate_cache g)) n =
              [num_tag_of g c, num_tag_of g a] \<and>
            set_tags (replay_trace (loads [a, b, c, a, d]) (allocate_cache g)) n =
              [num_tag_of g d, num_tag_of g a])"
proof -
  let ?g0 = "allocate_cache g"
  have s4: "\<forall>x\<in>set [a, b, c, a]. unat (num_set_of ?g0 x) = n"
    and s5: "\<forall>x\<in>set [a, b, c, a, d]. unat (num_set_of ?g0 x) = n"
    using sets by simp_all
  have v4: "set_view n (replay_trace (loads [a, b, c, a]) ?g0) =
           fold (set_access p (nat (sint (K g)))) (map (num_tag_of g) [a, b, c, a])
             (replicate (nat (sint (K g))) empty_block, 1, 1, 0)"
    and v5: "set_view n (replay_trace (loads [a, b, c, a, d]) ?g0) =
           fold (set_access p (nat (sint (K g)))) (map (num_tag_of g) [a, b, c, a, d])
             (replicate (nat (sint (K g))) empty_block, 1, 1, 0)"
    if "policy g = Some p" for p
    using run_view [OF acc that s4] run_view [OF acc that s5] by simp_all
  have lru3: ?thesis if "K g = 3" "policy g = Some LRU"
    using that three_lines_lru [OF tags]
    by (simp add: set_view_tags set_view_evictions [of _ n] v4 [OF that(2)] v5 [OF that(2)])
  have fifo3: ?thesis if "K g = 3" "policy g = Some FIFO"
    using that three_lines_fifo [OF tags]
    by (simp add: set_view_tags set_view_evictions [of _ n] v4 [OF that(2)] v5 [OF that(2)])
  have two: ?thesis if k: "K g = 2"
  proof -
    obtain p where pol: "policy g = Some p"
      using parse_arguments_accepts(4) [OF acc] by auto
    show ?thesis
      using k pol two_lines_lru [OF tags] two_lines_fifo [OF tags]
      by (cases p) (simp_all add: set_view_tags v4 [OF pol] v5 [OF pol])
  qed
  have other: ?thesis if "K g \<noteq> 2" "K g \<noteq> 3"
    using that by simp
  obtain p where pol: "policy g = Some p"
    using parse_arguments_accepts(4) [OF acc] by auto
  show ?thesis
    using lru3 fifo3 two other pol by (cases p) blast+
qed

theorem eviction_after_reaccess_witness:
  "set_tags (replay_trace (loads [16, 80, 144, 16])
      (allocate_cache (initial_globals\<lparr>S := 4, K := 3, B := 16, policy := Some LRU,
         trace_fp := True, B_temp := 4\<rparr>))) 1 = [1, 5, 9] \<and>
   set_tags (replay_trace (loads [16, 80, 144, 16, 208])
      (allocate_cache (initial_globals\<lparr>S := 4, K := 3, B := 16, policy := Some LRU,
         trace_fp := True, B_temp := 4\<rparr>))) 1 = [1, 13, 9] \<and>
   set_tags (replay_trace (loads [16, 80, 144, 16, 208])
      (allocate_cache (initial_globals\<lparr>S := 4, K := 3, B := 16, policy := Some FIFO,
         trace_fp := True, B_temp := 4\<rparr>))) 1 = [13, 5, 9] \<and>
   set_tags (replay_trace (loads [16, 80, 144, 16])
      (allocate_cache (initial_globals\<lparr>S := 4, K := 2, B := 16, policy := Some LRU,
         trace_fp := True, B_temp := 4\<rparr>))) 1 = [9, 1] \<and>
   set_tags (replay_trace (loads [16, 80, 144, 16, 208])
      (allocate_cache (initial_globals\<lparr>S := 4, K := 2, B := 16, policy := Some LRU,
         trace_fp := True, B_temp := 4\<rparr>))) 1 = [13, 1]"
proof -
  let ?g = "\<lambda>k p. initial_globals\<lparr>S := 4, K := k, B := 16, policy := Some p,
         trace_fp := True, B_temp := 4\<rparr>"
  have p1: "parse_arguments [OptS 4, OptK 3, OptB 16, OptP ''LRU'', OptT True] initial_globals
             = Inr (?g 3 LRU)"
    by code_simp
  have p2: "parse_arguments [OptS 4, OptK 3, OptB 16, OptP ''FIFO'', OptT True] initial_globals
             = Inr (?g 3 FIFO)"
    by code_simp
  have p3: "parse_arguments [OptS 4, OptK 2, OptB 16, OptP ''LRU'', OptT True] initial_globals
             = Inr (?g 2 LRU)"
    by code_simp
  have sets: "\<forall>x\<in>set [16, 80, 144, 208]. unat (num_set_of (allocate_cache (?g k p)) x) = 1"
    for k p
    by (simp add: num_set_of_def allocate_cache_def initial_globals_def)
  have tags: "num_tag_of (?g k p) 16 = 1" "num_tag_of (?g k p) 80 = 5"
    "num_tag_of (?g k p) 144 = 9" "num_tag_of (?g k p) 208 = 13" for k p
    by (simp_all add: num_tag_of_def initial_globals_def)
  have d: "distinct [num_tag_of (?g k p) 16, num_tag_of (?g k p) 80, num_tag_of (?g k p) 144,
                     num_tag_of (?g k p) 208]" for k p
    by (simp add: tags)
  have k1: "K (?g 3 LRU) = 3 \<and> policy (?g 3 LRU) = Some LRU"
    and k2: "K (?g 3 FIFO) = 3 \<and> policy (?g 3 FIFO) = Some FIFO"
    and k3: "K (?g 2 LRU) = 2"
    by (simp_all add: initial_globals_def)
  from eviction_after_reaccess [OF p1 sets d] k1
  have "set_tags (replay_trace (loads [16, 80, 144, 16]) (allocate_cache (?g 3 LRU))) 1 =
              [num_tag_of (?g 3 LRU) 16, num_tag_of (?g 3 LRU) 80, num_tag_of (?g 3 LRU) 144] \<and>
        set_tags (replay_trace (loads [16, 80, 144, 16, 208]) (allocate_cache (?g 3 LRU))) 1 =
              [num_tag_of (?g 3 LRU) 16, num_tag_of (?g 3 LRU) 208, num_tag_of (?g 3 LRU) 144]"
    by blast
  moreover from eviction_after_reaccess [OF p2 sets d] k2
  have "set_tags (replay_trace (loads [16, 80, 144, 16, 208]) (allocate_cache (?g 3 FIFO))) 1 =
              [num_tag_of (?g 3 FIFO) 208, num_tag_of (?g 3 FIFO) 80, num_tag_of (?g 3 FIFO) 144]"
    by blast
  moreover from eviction_after_reaccess [OF p3 sets d] k3
  have "set_tags (replay_trace (loads [16, 80, 144, 16]) (allocate_cache (?g 2 LRU))) 1 =
              [num_tag_of (?g 2 LRU) 144, num_tag_of (?g 2 LRU) 16] \<and>
        set_tags (replay_trace (loads [16, 80, 144, 16, 208]) (allocate_cache (?g 2 LRU))) 1 =
              [num_tag_of (?g 2 LRU) 208, num_tag_of (?g 2 LRU) 16]"
    by blast
  ultimately show ?thesis by (simp only: tags)
qed

text \<open>
  Claim C3, as stated, fails. With \<open>K = 2\<close> the set holds the tags \<open>C\<close> and \<open>A\<close> before the
  access with tag \<open>D\<close> (here \<open>A, B, C, D = 10, 20, 30, 40\<close>), and under LRU and under FIFO
  that access replaces \<open>C\<close>: it evicts neither the line of \<open>B\<close>, which is no longer in the
  cache, nor the line of \<open>A\<close>.
\<close>

theorem eviction_after_reaccess_counterexample:
  "set_tags (replay_trace (loads [10, 20, 30, 10]) (two_way LRU)) 0 = [30, 10] \<and>
   set_tags (replay_trace (loads [10, 20, 30, 10, 40]) (two_way LRU)) 0 = [40, 10] \<and>
   set_tags (replay_trace (loads [10, 20, 30, 10]) (two_way FIFO)) 0 = [30, 10] \<and>
   set_tags (replay_trace (loads [10, 20, 30, 10, 40]) (two_way FIFO)) 0 = [40, 10]"
  by code_simp

section \<open>One line per set: the policy does not matter\<close>

lemma access_line_tag: "tagBits (access_line g addr) = num_tag_of g addr"
  by (simp add: access_line_def Let_def)

lemma same_lines_step:
  assumes rel: "same_lines g1 g2" and ok1: "cache_ok g1" and ok2: "cache_ok g2"
    and one: "K g1 = 1"
  shows "same_lines (access_data g1 addr) (access_data g2 addr)"
proof -
  let ?n = "unat (num_set_of g1 addr)"
  have geo: "K g2 = K g1" "B g2 = B g1" "B_temp g2 = B_temp g1" "S_temp g2 = S_temp g1"
    "setMask g2 = setMask g1"
    using rel by (simp_all add: same_lines_def)
  have cnt: "hit_count g2 = hit_count g1" "miss_count g2 = miss_count g1"
    "eviction_count g2 = eviction_count g1"
    using rel by (simp_all add: same_lines_def)
  have lines: "tagBits (cache g2 ! m ! j) = tagBits (cache g1 ! m ! j)"
    "(validBits (cache g2 ! m ! j) = 0) = (validBits (cache g1 ! m ! j) = 0)" for m j
    using rel by (simp_all add: same_lines_def)
  have nums: "num_set_of g2 addr = num_set_of g1 addr" "num_tag_of g2 addr = num_tag_of g1 addr"
    by (simp_all add: num_set_of_def num_tag_of_def geo)
  have pres: "line_present g2 addr = line_present g1 addr"
    by (simp add: line_present_def nums geo lines)
  have full: "(find_inv (cache g2 ! ?n) (nat (sint (K g1))) = None)
            = (find_inv (cache g1 ! ?n) (nat (sint (K g1))) = None)"
    by (simp add: find_inv_None lines)
  have slot1: "access_slot g1 addr = 0"
    using access_slot_less [OF ok1, of addr] one by simp
  have slot2: "access_slot g2 addr = 0"
    using access_slot_less [OF ok2, of addr] one geo by simp
  have new: "tagBits (access_line g2 addr) = tagBits (access_line g1 addr)"
    "(validBits (access_line g2 addr) = 0) = (validBits (access_line g1 addr) = 0)"
    using access_line_valid [OF ok1, of addr] access_line_valid [OF ok2, of addr]
    by (simp_all add: access_line_tag nums)
  show ?thesis
    unfolding same_lines_def
    using new
    by (simp add: access_data_frame access_data_counts [OF ok1] access_data_counts [OF ok2]
        access_data_nth [OF ok1] access_data_nth [OF ok2] geo cnt lines nums pres full slot1 slot2)
qed

lemma same_lines_fold:
  assumes "same_lines g1 g2" and "cache_ok g1" and "cache_ok g2" and "K g1 = 1"
  shows "same_lines (fold (\<lambda>idx g'. access_data g' idx) as g1)
                    (fold (\<lambda>idx g'. access_data g' idx) as g2) \<and>
         cache_ok (fold (\<lambda>idx g'. access_data g' idx) as g1) \<and>
         cache_ok (fold (\<lambda>idx g'. access_data g' idx) as g2) \<and>
         K (fold (\<lambda>idx g'. access_data g' idx) as g1) = 1"
  using assms
proof (induction as arbitrary: g1 g2)
  case Nil
  then show ?case by simp
next
  case (Cons a as)
  have "same_lines (access_data g1 a) (access_data g2 a)"
    by (rule same_lines_step [OF Cons.prems])
  moreover have "cache_ok (access_data g1 a)" "cache_ok (access_data g2 a)"
    using Cons.prems by (simp_all add: access_data_cache_ok)
  moreover have "K (access_data g1 a) = 1"
    using Cons.prems by (simp add: access_data_frame)
  ultimately show ?case
    using Cons.IH [of "access_data g1 a" "access_data g2 a"] by simp
qed

lemma same_lines_replay:
  assumes "same_lines g1 g2" and "cache_ok g1" and "cache_ok g2" and "K g1 = 1"
  shows "same_lines (replay_trace trace g1) (replay_trace trace g2)"
  using assms
proof (induction trace g1 arbitrary: g2 rule: replay_trace.induct)
  case (1 g)
  then show ?case by simp
next
  case (2 rest g)
  then show ?case by simp
next
  case (3 trace_cmd address sz rest g)
  have b: "B g2 = B g" using "3.prems"(1) by (simp add: same_lines_def)
  from same_lines_fold [OF "3.prems", of "record_accesses (B g) trace_cmd address sz"]
  show ?case
    using "3.IH" [of "replay_record trace_cmd address sz g2"]
    by (simp add: replay_record_def b)
qed

text \<open>
  Claim C7. With \<open>K = 1\<close> the counts do not depend on the policy: two accepted command
  lines with the same \<open>S\<close> and \<open>B\<close> and one line per set, one with \<open>-p LRU\<close> and one with
  \<open>-p FIFO\<close>, give the same exit status and the same hit, miss and eviction counts on
  every trace.
\<close>

theorem direct_mapped_policies_agree:
  assumes "parse_arguments argv_lru initial_globals = Inr g1"
    and "parse_arguments argv_fifo initial_globals = Inr g2"
    and "policy g1 = Some LRU" and "policy g2 = Some FIFO"
    and "S g1 = S g2" and "B g1 = B g2" and "K g1 = 1" and "K g2 = 1"
  shows "main argv_lru trace = main argv_fifo trace"
proof -
  note a1 = parse_arguments_accepts [OF assms(1)]
  note a2 = parse_arguments_accepts [OF assms(2)]
  have ok1: "cache_ok (allocate_cache g1)" by (rule allocate_cache_ok [OF a1(1,2,4)])
  have ok2: "cache_ok (allocate_cache g2)" by (rule allocate_cache_ok [OF a2(1,2,4)])
  have "cache (allocate_cache g1) = cache (allocate_cache g2)"
    using assms(5,7,8) by (simp add: allocate_cache_def)
  then have "same_lines (allocate_cache g1) (allocate_cache g2)"
    using assms(5-8) a1(7,8,12-14) a2(7,8,12-14)
    by (simp add: same_lines_def allocate_cache_frame)
  from same_lines_replay [OF this ok1 ok2, of trace] assms(7)
  have "same_lines (replay_trace trace (allocate_cache g1)) (replay_trace trace (allocate_cache g2))"
    by (simp add: allocate_cache_frame)
  then show ?thesis
    by (simp add: main_def assms(1,2) same_lines_def Let_def)
qed

theorem direct_mapped_policies_agree_witness:
  "main [OptS 2, OptK 1, OptB 4, OptP ''LRU'', OptT True]
     [Scanned CHR ''L'' 0 1, Scanned CHR ''S'' 8 1, Scanned CHR ''M'' 0 1] =
   main [OptS 2, OptK 1, OptB 4, OptP ''FIFO'', OptT True]
     [Scanned CHR ''L'' 0 1, Scanned CHR ''S'' 8 1, Scanned CHR ''M'' 0 1]"
proof -
  have p1: "parse_arguments [OptS 2, OptK 1, OptB 4, OptP ''LRU'', OptT True] initial_globals
        = Inr (initial_globals\<lparr>S := 2, K := 1, B := 4, policy := Some LRU, trace_fp := True,
                 B_temp := 2\<rparr>)"
    by code_simp
  have p2: "parse_arguments [OptS 2, OptK 1, OptB 4, OptP ''FIFO'', OptT True] initial_globals
        = Inr (initial_globals\<lparr>S := 2, K := 1, B := 4, policy := Some FIFO, trace_fp := True,
                 B_temp := 2\<rparr>)"
    by code_simp
  show ?thesis
    by (rule direct_mapped_policies_agree [OF p1 p2]) (simp_all add: initial_globals_def)
qed

section \<open>\<open>INT_LOG2\<close> and \<open>NOT_POWER2\<close>\<close>

lemma word_has_bit:
  fixes x :: c_uint
  assumes "x \<noteq> 0"
  shows "\<exists>i<32. bit x i"
proof (rule ccontr)
  assume "\<not> (\<exists>i<32. bit x i)"
  then have "x = 0" by (intro bit_word_eqI) simp
  with assms show False by simp
qed

lemma builtin_ctz_bit:
  fixes x :: c_uint
  assumes "x \<noteq> 0"
  shows "builtin_ctz x < 32" and "bit x (builtin_ctz x)" and "\<forall>i<builtin_ctz x. \<not> bit x i"
proof -
  let ?P = "\<lambda>i. \<not> bit x i" and ?xs = "[0..<32]"
  have le: "builtin_ctz x \<le> 32"
    using length_takeWhile_le [of ?P ?xs] by (simp add: builtin_ctz_def)
  have "builtin_ctz x \<noteq> 32"
  proof
    assume "builtin_ctz x = 32"
    then have "length (takeWhile ?P ?xs) = length ?xs" by (simp add: builtin_ctz_def)
    then have "takeWhile ?P ?xs = ?xs"
      by (metis length_append self_append_conv takeWhile_dropWhile_id length_0_conv add_cancel_right_right)
    then have "\<forall>i\<in>set ?xs. ?P i" by (simp only: takeWhile_eq_all_conv)
    with word_has_bit [OF assms] show False by auto
  qed
  with le show lt: "builtin_ctz x < 32" by simp
  then have "length (takeWhile ?P ?xs) < length ?xs" by (simp add: builtin_ctz_def)
  then have "\<not> ?P (?xs ! length (takeWhile ?P ?xs))" by (rule nth_length_takeWhile)
  with lt show "bit x (builtin_ctz x)" by (simp add: builtin_ctz_def)
  show "\<forall>i<builtin_ctz x. \<not> bit x i"
  proof (intro allI impI)
    fix i assume i: "i < builtin_ctz x"
    then have j: "i < length (takeWhile ?P ?xs)" by (simp add: builtin_ctz_def)
    then have "takeWhile ?P ?xs ! i \<in> set (takeWhile ?P ?xs)" by (rule nth_mem)
    then have "?P (takeWhile ?P ?xs ! i)" by (rule set_takeWhileD [THEN conjunct2])
    moreover have "takeWhile ?P ?xs ! i = ?xs ! i" using j by (rule takeWhile_nth)
    moreover have "?xs ! i = i" using i lt by simp
    ultimately show "\<not> bit x i" by simp
  qed
qed

lemma builtin_clz_bit:
  fixes x :: c_uint
  assumes "x \<noteq> 0"
  shows "builtin_clz x < 32" and "bit x (31 - builtin_clz x)"
    and "\<forall>i<32. 31 - builtin_clz x < i \<longrightarrow> \<not> bit x i"
proof -
  let ?P = "\<lambda>i. \<not> bit x i" and ?xs = "rev [0..<32]"
  have nth: "?xs ! i = 31 - i" if "i < 32" for i
    using that by (simp add: rev_nth)
  have le: "builtin_clz x \<le> 32"
    using length_takeWhile_le [of ?P ?xs] by (simp add: builtin_clz_def)
  have "builtin_clz x \<noteq> 32"
  proof
    assume "builtin_clz x = 32"
    then have "length (takeWhile ?P ?xs) = length ?xs" by (simp add: builtin_clz_def)
    then have "takeWhile ?P ?xs = ?xs"
      by (metis length_append self_append_conv takeWhile_dropWhile_id length_0_conv add_cancel_right_right)
    then have "\<forall>i\<in>set ?xs. ?P i" by (simp only: takeWhile_eq_all_conv)
    with word_has_bit [OF assms] show False by auto
  qed
  with le show lt: "builtin_clz x < 32" by simp
  then have "length (takeWhile ?P ?xs) < length ?xs" by (simp add: builtin_clz_def)
  then have "\<not> ?P (?xs ! length (takeWhile ?P ?xs))" by (rule nth_length_takeWhile)
  moreover have c: "length (takeWhile ?P ?xs) = builtin_clz x" by (simp only: builtin_clz_def)
  ultimately have "bit x (?xs ! builtin_clz x)" by (simp only: c not_not)
  then show "bit x (31 - builtin_clz x)" by (simp only: nth [OF lt])
  show "\<forall>i<32. 31 - builtin_clz x < i \<longrightarrow> \<not> bit x i"
  proof (intro allI impI)
    fix i :: nat assume i: "i < 32" "31 - builtin_clz x < i"
    let ?j = "31 - i"
    have j: "?j < length (takeWhile ?P ?xs)" using i lt by (simp add: builtin_clz_def)
    then have "takeWhile ?P ?xs ! ?j \<in> set (takeWhile ?P ?xs)" by (rule nth_mem)
    then have "?P (takeWhile ?P ?xs ! ?j)" by (rule set_takeWhileD [THEN conjunct2])
    moreover have "takeWhile ?P ?xs ! ?j = ?xs ! ?j" using j by (rule takeWhile_nth)
    moreover have "?xs ! ?j = i" using i by (simp add: nth)
    ultimately show "\<not> bit x i" by simp
  qed
qed

lemma positive_top_bit:
  fixes x :: c_int
  assumes "0 <s x"
  shows "x \<noteq> 0" and "\<not> bit x 31"
proof -
  have pos: "0 < sint x" using assms by (simp add: word_sless_alt)
  then show "x \<noteq> 0" by auto
  have "bit x (LENGTH(32) - Suc 0) = (sint x < 0)" by (rule bit_last_iff)
  with pos show "\<not> bit x 31" by simp
qed

lemma INT_LOG2_positive:
  fixes x :: c_int
  assumes "0 <s x"
  shows "31 - builtin_clz x \<le> 30"
    and "INT_LOG2 x = word_of_nat (31 - builtin_clz x)"
    and "bit x (31 - builtin_clz x)"
proof -
  note nz = positive_top_bit [OF assms]
  note clz = builtin_clz_bit [OF nz(1)]
  have "builtin_clz x \<noteq> 0"
    using clz(2) nz(2) by (cases "builtin_clz x = 0") simp_all
  then show "31 - builtin_clz x \<le> 30" by simp
  have "builtin_clz x \<le> 31" using clz(1) by simp
  then have "(word_of_nat (31 - builtin_clz x) :: c_int) = word_of_nat 31 - word_of_nat (builtin_clz x)"
    by (rule of_nat_diff)
  then show "INT_LOG2 x = word_of_nat (31 - builtin_clz x)"
    by (simp add: INT_LOG2_def)
  show "bit x (31 - builtin_clz x)" by (rule clz(2))
qed

lemma power_of_two:
  fixes x :: c_int
  assumes pos: "0 <s x" and p2: "\<not> NOT_POWER2 x"
  shows "x = 2 ^ (31 - builtin_clz x)"
proof -
  note nz = positive_top_bit [OF pos]
  note clz = builtin_clz_bit [OF nz(1)]
  note ctz = builtin_ctz_bit [OF nz(1)]
  let ?e = "31 - builtin_clz x"
  have sum: "builtin_clz x + builtin_ctz x = 31" using p2 by (simp add: NOT_POWER2_def)
  then have e: "builtin_ctz x = ?e" by simp
  have "bit x n = (n = ?e)" if "n < 32" for n
  proof (cases "n = ?e")
    case True
    then show ?thesis using clz(2) by simp
  next
    case False
    then consider "n < builtin_ctz x" | "?e < n" using e by linarith
    then have "\<not> bit x n"
    proof cases
      case 1
      then show ?thesis using ctz(3) by simp
    next
      case 2
      then show ?thesis using clz(3) that by simp
    qed
    with False show ?thesis by simp
  qed
  then show ?thesis
    by (intro bit_word_eqI) (simp add: bit_exp_iff)
qed

lemma scast_mask:
  assumes "e \<le> 30"
  shows "(scast ((2 :: c_int) ^ e - 1) :: c_ulong) = mask e"
proof -
  have m: "(2 :: c_int) ^ e - 1 = mask e" by (simp add: mask_eq_exp_minus_1)
  show ?thesis
    unfolding m using assms
    by (intro bit_word_eqI) (auto simp: bit_word_scast_iff bit_mask_iff)
qed

lemma drop_mask_inject:
  fixes x y :: c_ulong
  assumes "x AND mask e = y AND mask e" and "drop_bit e x = drop_bit e y"
  shows "x = y"
proof -
  have "push_bit e (drop_bit e x) + take_bit e x = push_bit e (drop_bit e y) + take_bit e y"
    using assms by (simp add: take_bit_eq_mask)
  then show ?thesis by (simp only: bits_ident)
qed

lemma sint_small_nat:
  assumes "m \<le> 60"
  shows "sint (word_of_nat m :: c_int) = int m"
proof -
  have "m < 2 ^ 31" using assms by simp
  then show ?thesis by (rule sint_word_of_nat)
qed

section \<open>The set-index bits in the tag\<close>

lemma split_tags_step:
  assumes rel: "split_tags e g1 g2" and ok1: "cache_ok g1" and ok2: "cache_ok g2"
  shows "split_tags e (access_data g1 addr) (access_data g2 addr)"
proof -
  let ?k = "nat (sint (K g1))" and ?b = "nat (sint (B_temp g1))"
  let ?t1 = "num_tag_of g1 addr" and ?t2 = "num_tag_of g2 addr"
  let ?n = "unat (num_set_of g1 addr)"
  let ?c1 = "cache g1" and ?c2 = "cache g2"
  have geo: "K g2 = K g1" "B g2 = B g1" "policy g2 = policy g1" "B_temp g2 = B_temp g1"
    "setMask g1 = mask e" "setMask g2 = mask e" "S_temp g1 = 0" "0 \<le> sint (B_temp g1)"
    "sint (S_temp g2 + B_temp g1) = int e + sint (B_temp g1)"
    "length ?c2 = length ?c1"
    using rel by (auto simp: split_tags_def)
  have cnt: "num_lru g2 = num_lru g1" "num_fifo g2 = num_fifo g1"
    "hit_count g2 = hit_count g1" "miss_count g2 = miss_count g1"
    "eviction_count g2 = eviction_count g1"
    using rel by (auto simp: split_tags_def)
  have same: "countBlock (?c2 ! m ! j) = countBlock (?c1 ! m ! j)"
    "validBits (?c2 ! m ! j) = validBits (?c1 ! m ! j)" for m j
    using rel by (auto simp: split_tags_def)
  have tags: "tagBits (?c1 ! m ! j) AND mask e = word_of_nat m \<and>
              tagBits (?c2 ! m ! j) = drop_bit e (tagBits (?c1 ! m ! j))"
    if "m < length ?c1" "j < ?k" "validBits (?c1 ! m ! j) \<noteq> 0" for m j
    using rel that by (simp add: split_tags_def)
  have t1: "?t1 = drop_bit ?b addr"
    by (simp add: num_tag_of_def geo)
  have "nat (sint (S_temp g2 + B_temp g1)) = e + ?b"
    using geo(8,9) by (simp add: nat_add_distrib)
  then have t2: "?t2 = drop_bit e ?t1"
    by (simp add: num_tag_of_def geo t1 drop_bit_drop_bit)
  have ns: "num_set_of g2 addr = num_set_of g1 addr"
    by (simp add: num_set_of_def geo)
  have set1: "num_set_of g1 addr = ?t1 AND mask e"
    by (simp add: num_set_of_def geo t1 and.commute)
  have tn: "?t1 AND mask e = word_of_nat ?n"
    by (simp add: set1)
  have n: "?n < length ?c1" by (rule num_set_in_range [OF ok1])
  have match: "(tagBits (?c2 ! ?n ! j) = ?t2 \<and> validBits (?c2 ! ?n ! j) \<noteq> 0) =
               (tagBits (?c1 ! ?n ! j) = ?t1 \<and> validBits (?c1 ! ?n ! j) \<noteq> 0)"
    if j: "j < ?k" for j
  proof (cases "validBits (?c1 ! ?n ! j) = 0")
    case True
    then show ?thesis by (simp add: same)
  next
    case False
    note tg = tags [OF n j False]
    have inj: "tagBits (?c1 ! ?n ! j) = ?t1"
      if eq: "drop_bit e (tagBits (?c1 ! ?n ! j)) = drop_bit e ?t1"
    proof (rule drop_mask_inject [of _ e])
      show "tagBits (?c1 ! ?n ! j) AND mask e = ?t1 AND mask e"
        using tg by (simp only: tn)
      show "drop_bit e (tagBits (?c1 ! ?n ! j)) = drop_bit e ?t1"
        by (rule eq)
    qed
    have "(tagBits (?c2 ! ?n ! j) = ?t2) = (tagBits (?c1 ! ?n ! j) = ?t1)"
    proof
      assume "tagBits (?c2 ! ?n ! j) = ?t2"
      then have "drop_bit e (tagBits (?c1 ! ?n ! j)) = drop_bit e ?t1"
        using tg by (simp only: t2)
      then show "tagBits (?c1 ! ?n ! j) = ?t1" by (rule inj)
    next
      assume "tagBits (?c1 ! ?n ! j) = ?t1"
      then show "tagBits (?c2 ! ?n ! j) = ?t2"
        using tg by (simp only: t2)
    qed
    then show ?thesis by (simp only: same)
  qed
  have ft: "find_tag (?c2 ! ?n) ?k ?t2 = find_tag (?c1 ! ?n) ?k ?t1"
    unfolding find_tag_def by (rule find_cong [OF refl]) (simp add: match)
  have fi: "find_inv (?c2 ! ?n) ?k = find_inv (?c1 ! ?n) ?k"
    by (simp add: find_inv_def same)
  have lv: "lru_victim (?c2 ! ?n) ?k = lru_victim (?c1 ! ?n) ?k"
    by (simp add: lru_victim_def same cong: if_cong)
  have fv: "fifo_victim (?c2 ! ?n) ?k = fifo_victim (?c1 ! ?n) ?k"
    by (simp add: fifo_victim_def same cong: if_cong)
  have slot: "access_slot g2 addr = access_slot g1 addr"
    by (simp add: access_slot_def Let_def geo ns ft fi lv fv cong: option.case_cong if_cong)
  have pres: "line_present g2 addr = line_present g1 addr"
    by (simp add: line_present_find_tag geo ns ft)
  have line: "countBlock (access_line g2 addr) = countBlock (access_line g1 addr)"
    "validBits (access_line g2 addr) = validBits (access_line g1 addr)"
    by (simp_all add: access_line_def Let_def geo cnt ns fi slot pres same cong: if_cong)
  have new: "tagBits (access_line g1 addr) AND mask e = word_of_nat ?n"
    "tagBits (access_line g2 addr) = drop_bit e (tagBits (access_line g1 addr))"
    by (simp_all add: access_line_tag tn t2)
  have clocks: "num_lru (access_data g2 addr) = num_lru (access_data g1 addr)"
    "num_fifo (access_data g2 addr) = num_fifo (access_data g1 addr)"
    by (simp_all add: access_data_clocks [OF ok1] access_data_clocks [OF ok2] geo cnt pres)
  have counts: "hit_count (access_data g2 addr) = hit_count (access_data g1 addr)"
    "miss_count (access_data g2 addr) = miss_count (access_data g1 addr)"
    "eviction_count (access_data g2 addr) = eviction_count (access_data g1 addr)"
    by (simp_all add: access_data_counts [OF ok1] access_data_counts [OF ok2] geo cnt pres ns fi)
  have same': "countBlock (cache (access_data g1 addr) ! m ! j) =
                 countBlock (cache (access_data g2 addr) ! m ! j) \<and>
               validBits (cache (access_data g1 addr) ! m ! j) =
                 validBits (cache (access_data g2 addr) ! m ! j)" for m j
    by (simp add: access_data_nth [OF ok1] access_data_nth [OF ok2] ns slot line same)
  have tags': "tagBits (cache (access_data g1 addr) ! m ! j) AND mask e = word_of_nat m \<and>
               tagBits (cache (access_data g2 addr) ! m ! j) =
                 drop_bit e (tagBits (cache (access_data g1 addr) ! m ! j))"
    if "m < length ?c1" "j < ?k" "validBits (cache (access_data g1 addr) ! m ! j) \<noteq> 0" for m j
  proof (cases "m = ?n \<and> j = access_slot g1 addr")
    case True
    then show ?thesis
      using new by (simp add: access_data_nth [OF ok1] access_data_nth [OF ok2] ns slot)
  next
    case False
    then have "cache (access_data g1 addr) ! m ! j = ?c1 ! m ! j"
      "cache (access_data g2 addr) ! m ! j = ?c2 ! m ! j"
      by (auto simp: access_data_nth [OF ok1] access_data_nth [OF ok2] ns slot)
    with tags [OF that(1,2)] that(3) show ?thesis by simp
  qed
  show ?thesis
    unfolding split_tags_def
    using same' tags'
    by (simp add: access_data_frame access_data_length geo clocks counts)
qed

lemma split_tags_fold:
  assumes "split_tags e g1 g2" and "cache_ok g1" and "cache_ok g2"
  shows "split_tags e (fold (\<lambda>idx g'. access_data g' idx) as g1)
                      (fold (\<lambda>idx g'. access_data g' idx) as g2) \<and>
         cache_ok (fold (\<lambda>idx g'. access_data g' idx) as g1) \<and>
         cache_ok (fold (\<lambda>idx g'. access_data g' idx) as g2)"
  using assms
proof (induction as arbitrary: g1 g2)
  case Nil
  then show ?case by simp
next
  case (Cons a as)
  have "split_tags e (access_data g1 a) (access_data g2 a)"
    by (rule split_tags_step [OF Cons.prems])
  moreover have "cache_ok (access_data g1 a)" "cache_ok (access_data g2 a)"
    using Cons.prems by (simp_all add: access_data_cache_ok)
  ultimately show ?case
    using Cons.IH [of "access_data g1 a" "access_data g2 a"] by simp
qed

lemma split_tags_replay:
  assumes "split_tags e g1 g2" and "cache_ok g1" and "cache_ok g2"
  shows "split_tags e (replay_trace trace g1) (replay_trace trace g2)"
  using assms
proof (induction trace g1 arbitrary: g2 rule: replay_trace.induct)
  case (1 g)
  then show ?case by simp
next
  case (2 rest g)
  then show ?case by simp
next
  case (3 trace_cmd address sz rest g)
  have b: "B g2 = B g" using "3.prems"(1) by (simp add: split_tags_def)
  from split_tags_fold [OF "3.prems", of "record_accesses (B g) trace_cmd address sz"]
  show ?case
    using "3.IH" [of "replay_record trace_cmd address sz g2"]
    by (simp add: replay_record_def b)
qed

lemma split_tags_allocate:
  assumes acc: "parse_arguments argv initial_globals = Inr g"
  shows "split_tags (31 - builtin_clz (S g)) (allocate_cache g)
           (allocate_cache (g\<lparr>S_temp := INT_LOG2 (S g)\<rparr>))"
    and "cache_ok (allocate_cache g)"
    and "cache_ok (allocate_cache (g\<lparr>S_temp := INT_LOG2 (S g)\<rparr>))"
proof -
  note a = parse_arguments_accepts [OF acc]
  let ?e = "31 - builtin_clz (S g)" and ?hb = "31 - builtin_clz (B g)"
  let ?g' = "g\<lparr>S_temp := INT_LOG2 (S g)\<rparr>"
  note ls = INT_LOG2_positive [OF a(1)]
  note lb = INT_LOG2_positive [OF a(3)]
  have s: "S g = 2 ^ ?e" by (rule power_of_two [OF a(1,6)])
  have "scast (S g - 1) = (scast ((2 :: c_int) ^ ?e - 1) :: c_ulong)"
    using s by simp
  then have mask: "(scast (S g - 1) :: c_ulong) = mask ?e"
    by (simp only: scast_mask [OF ls(1)])
  have bt: "sint (B_temp g) = int ?hb"
    using lb(1) by (simp add: a(8) lb(2) sint_small_nat)
  have le60: "?e + ?hb \<le> 60" using ls(1) lb(1) by simp
  have "INT_LOG2 (S g) + B_temp g = word_of_nat (?e + ?hb)"
    by (simp add: a(8) ls(2) lb(2))
  then have "sint (INT_LOG2 (S g) + B_temp g) = sint (word_of_nat (?e + ?hb) :: c_int)"
    by (rule arg_cong)
  also have "\<dots> = int (?e + ?hb)"
    using le60 by (rule sint_small_nat)
  finally have sum: "sint (INT_LOG2 (S g) + B_temp g) = int ?e + int ?hb"
    by (simp only: of_nat_add)
  show ok: "cache_ok (allocate_cache g)"
    by (rule allocate_cache_ok [OF a(1,2,4)])
  show ok': "cache_ok (allocate_cache ?g')"
    using a(1,2,4) by (intro allocate_cache_ok) simp_all
  have c: "cache (allocate_cache ?g') = cache (allocate_cache g)"
    by (simp add: allocate_cache_def)
  have inv: "validBits (cache (allocate_cache g) ! m ! j) = 0"
    if "m < length (cache (allocate_cache g))" "j < nat (sint (K g))" for m j
    using that by (simp add: allocate_cache_def empty_block_def)
  show "split_tags ?e (allocate_cache g) (allocate_cache ?g')"
    unfolding split_tags_def
    using inv
    by (simp add: allocate_cache_frame c mask a(7) bt sum)
qed

lemma shift_amounts:
  assumes acc: "parse_arguments argv initial_globals = Inr g"
  shows "nat (sint (S_temp g + B_temp g)) = nat (sint (INT_LOG2 (B g)))"
    and "nat (sint (INT_LOG2 (S g) + B_temp g)) =
           nat (sint (INT_LOG2 (S g))) + nat (sint (INT_LOG2 (B g)))"
proof -
  note a = parse_arguments_accepts [OF acc]
  let ?e = "31 - builtin_clz (S g)" and ?hb = "31 - builtin_clz (B g)"
  note ls = INT_LOG2_positive [OF a(1)]
  note lb = INT_LOG2_positive [OF a(3)]
  show "nat (sint (S_temp g + B_temp g)) = nat (sint (INT_LOG2 (B g)))"
    by (simp add: a(7,8))
  have s: "sint (INT_LOG2 (S g)) = int ?e"
    using ls(1) by (simp add: ls(2) sint_small_nat)
  have b: "sint (INT_LOG2 (B g)) = int ?hb"
    using lb(1) by (simp add: lb(2) sint_small_nat)
  have le60: "?e + ?hb \<le> 60" using ls(1) lb(1) by simp
  have "INT_LOG2 (S g) + B_temp g = word_of_nat (?e + ?hb)"
    by (simp add: a(8) ls(2) lb(2))
  then have "sint (INT_LOG2 (S g) + B_temp g) = sint (word_of_nat (?e + ?hb) :: c_int)"
    by (rule arg_cong)
  also have "\<dots> = int (?e + ?hb)"
    using le60 by (rule sint_small_nat)
  finally have "nat (sint (INT_LOG2 (S g) + B_temp g)) = ?e + ?hb"
    by (simp only: nat_int)
  then show "nat (sint (INT_LOG2 (S g) + B_temp g)) =
           nat (sint (INT_LOG2 (S g))) + nat (sint (INT_LOG2 (B g)))"
    by (simp only: s b nat_int)
qed

text \<open>
  Claim C10. For every accepted command line (\<open>S\<close> a positive power of two, \<open>K\<close> and
  \<open>B\<close> positive, either policy) and every trace, the run of the code, whose \<open>S_temp\<close> is 0
  and whose tag is \<open>address >> INT_LOG2(B)\<close>, set-index bits included, gives the same
  hit, miss and eviction counts as the run in which \<open>S_temp\<close> is \<open>INT_LOG2(S)\<close> and the
  tag is \<open>address >> (INT_LOG2(S) + INT_LOG2(B))\<close>.
\<close>

theorem set_index_bits_in_tag:
  assumes "parse_arguments argv initial_globals = Inr g"
  shows "S_temp g = 0 \<and>
         num_tag_of g addr = drop_bit (nat (sint (INT_LOG2 (B g)))) addr \<and>
         num_tag_of (g\<lparr>S_temp := INT_LOG2 (S g)\<rparr>) addr =
           drop_bit (nat (sint (INT_LOG2 (S g))) + nat (sint (INT_LOG2 (B g)))) addr \<and>
         hit_count (replay_trace trace (allocate_cache g)) =
           hit_count (replay_trace trace (allocate_cache (g\<lparr>S_temp := INT_LOG2 (S g)\<rparr>))) \<and>
         miss_count (replay_trace trace (allocate_cache g)) =
           miss_count (replay_trace trace (allocate_cache (g\<lparr>S_temp := INT_LOG2 (S g)\<rparr>))) \<and>
         eviction_count (replay_trace trace (allocate_cache g)) =
           eviction_count (replay_trace trace (allocate_cache (g\<lparr>S_temp := INT_LOG2 (S g)\<rparr>)))"
proof -
  note init = split_tags_allocate [OF assms]
  have rel: "split_tags (31 - builtin_clz (S g))
               (replay_trace trace (allocate_cache g))
               (replay_trace trace (allocate_cache (g\<lparr>S_temp := INT_LOG2 (S g)\<rparr>)))"
    by (rule split_tags_replay [OF init])
  have t1: "num_tag_of g addr = drop_bit (nat (sint (INT_LOG2 (B g)))) addr"
    by (simp only: num_tag_of_def shift_amounts(1) [OF assms])
  have t2: "num_tag_of (g\<lparr>S_temp := INT_LOG2 (S g)\<rparr>) addr =
           drop_bit (nat (sint (INT_LOG2 (S g))) + nat (sint (INT_LOG2 (B g)))) addr"
    using shift_amounts(2) [OF assms] by (simp add: num_tag_of_def)
  from rel t1 t2 parse_arguments_accepts(7) [OF assms] show ?thesis
    by (simp add: split_tags_def)
qed

theorem set_index_bits_in_tag_witness:
  "(let g = initial_globals\<lparr>S := 4, K := 2, B := 16, policy := Some LRU, trace_fp := True,
              B_temp := 4\<rparr>;
        trace = [Scanned CHR ''L'' 16 1, Scanned CHR ''S'' 80 1, Scanned CHR ''M'' 16 1]
    in hit_count (replay_trace trace (allocate_cache g)) =
         hit_count (replay_trace trace (allocate_cache (g\<lparr>S_temp := INT_LOG2 (S g)\<rparr>))) \<and>
       miss_count (replay_trace trace (allocate_cache g)) =
         miss_count (replay_trace trace (allocate_cache (g\<lparr>S_temp := INT_LOG2 (S g)\<rparr>))) \<and>
       eviction_count (replay_trace trace (allocate_cache g)) =
         eviction_count (replay_trace trace (allocate_cache (g\<lparr>S_temp := INT_LOG2 (S g)\<rparr>))))"
proof -
  have p: "parse_arguments [OptS 4, OptK 2, OptB 16, OptP ''LRU'', OptT True] initial_globals
        = Inr (initial_globals\<lparr>S := 4, K := 2, B := 16, policy := Some LRU, trace_fp := True,
                 B_temp := 4\<rparr>)"
    by code_simp
  from set_index_bits_in_tag [OF p, of 0
      "[Scanned CHR ''L'' 16 1, Scanned CHR ''S'' 80 1, Scanned CHR ''M'' 16 1]"]
  show ?thesis by (simp only: Let_def)
qed

end
